theory Spec2Isabelle
  imports Main "HOL-Library.Word"
begin

section \<open>The C vector of vector.c, embedded over an explicit heap\<close>

text \<open>
  The file vector.c implements a growable array of \<^verbatim>\<open>T\<close> (\<^verbatim>\<open>#define T int\<close>) on top of
  \<^verbatim>\<open>realloc\<close>, \<^verbatim>\<open>free\<close>, \<^verbatim>\<open>memset\<close> and \<^verbatim>\<open>memmove\<close>. The embedding fixes the
  usual LP64 data model: \<^verbatim>\<open>size_t\<close> is a 64-bit word whose arithmetic wraps, an
  \<^verbatim>\<open>int\<close> is a 32-bit word and \<^verbatim>\<open>sizeof(T)\<close> is 4.

  Memory is an explicit heap: a partial map from block addresses to the cells of the
  block. A cell is \<open>None\<close> while its value is indeterminate (fresh from the allocator)
  and \<open>Some x\<close> once it was written. Every library call that C leaves undefined
  (an access outside a live block, through a null or a freed pointer) is a \<open>fault\<close>
  of the model, so that the result of every function is \<open>fault + value\<close>.
\<close>

subsection \<open>Constants and types of the source\<close>

type_synonym T = "32 word"
type_synonym size_t = "64 word"

abbreviation BAD_ALLOC :: int where "BAD_ALLOC \<equiv> 0"
abbreviation OK :: int where "OK \<equiv> 1"

abbreviation INIT_CAPACITY :: size_t where "INIT_CAPACITY \<equiv> 8"
abbreviation SCALING_FACTOR :: size_t where "SCALING_FACTOR \<equiv> 2"
abbreviation sizeof_T :: size_t where "sizeof_T \<equiv> 4"

type_synonym addr = nat

datatype pointer = NULL | Ptr addr

type_synonym block = "T option list"
type_synonym heap = "addr \<rightharpoonup> block"

datatype fault = NullPointer | InvalidPointer | OutOfBounds

text \<open>The struct \<^verbatim>\<open>vector\<close>. The field \<^verbatim>\<open>size\<close> is \<open>size_v\<close> here.\<close>

record vector =
  contents :: pointer
  size_v :: size_t
  capacity :: size_t

subsection \<open>The C library\<close>

text \<open>
  The number of whole elements that fit into a byte count, and the block that a
  reallocation to \<open>n\<close> cells leaves: the common prefix is kept, fresh cells are
  indeterminate.
\<close>

definition cells_of_bytes :: "size_t \<Rightarrow> nat" where
  "cells_of_bytes n = unat n div unat sizeof_T"

definition resize_block :: "nat \<Rightarrow> block \<Rightarrow> block" where
  "resize_block n cs = take n cs @ replicate (n - length cs) None"

text \<open>
  What the allocator decides when \<^verbatim>\<open>realloc\<close> is called is not in the program, so it
  is an argument of the model: \<open>Refuse\<close> returns a null pointer and leaves the old
  block alone; \<open>Grant a\<close> places the new block at address \<open>a\<close> (the old address: in
  place; another address: the old block is released), and fails like \<open>Refuse\<close> when
  \<open>a\<close> is taken by another block; \<open>Release\<close> is the answer some C libraries give to
  a request of zero bytes: the old block is freed and a null pointer is returned (for
  a request of more than zero bytes it is \<open>Refuse\<close>).
\<close>

datatype alloc = Refuse | Grant addr | Release

fun pointee :: "heap \<Rightarrow> pointer \<Rightarrow> fault + block" where
  "pointee h NULL = Inr []"
| "pointee h (Ptr a) = (case h a of None \<Rightarrow> Inl InvalidPointer | Some cs \<Rightarrow> Inr cs)"

fun release :: "heap \<Rightarrow> pointer \<Rightarrow> heap" where
  "release h NULL = h"
| "release h (Ptr a) = h(a := None)"

definition realloc :: "alloc \<Rightarrow> heap \<Rightarrow> pointer \<Rightarrow> size_t \<Rightarrow> fault + (heap \<times> pointer)" where
  "realloc ch h p n =
     (case pointee h p of
        Inl e \<Rightarrow> Inl e
      | Inr cs \<Rightarrow>
          (case ch of
             Refuse \<Rightarrow> Inr (h, NULL)
           | Grant a \<Rightarrow>
               if p = Ptr a \<or> h a = None
               then Inr ((release h p)(a \<mapsto> resize_block (cells_of_bytes n) cs), Ptr a)
               else Inr (h, NULL)
           | Release \<Rightarrow> if n = 0 then Inr (release h p, NULL) else Inr (h, NULL)))"

definition free :: "heap \<Rightarrow> pointer \<Rightarrow> fault + heap" where
  "free h p =
     (case p of
        NULL \<Rightarrow> Inr h
      | Ptr a \<Rightarrow> (case h a of None \<Rightarrow> Inl InvalidPointer | Some cs \<Rightarrow> Inr (h(a := None))))"

text \<open>
  Accesses through \<open>p + off\<close>, where \<open>p\<close> is the start of a block and \<open>off\<close> counts
  elements. \<^verbatim>\<open>memset\<close> fills every byte with \<open>c\<close>, so an element becomes the word made
  of four such bytes. \<^verbatim>\<open>memmove\<close> copies as if through a temporary buffer.
\<close>

definition with_block :: "heap \<Rightarrow> pointer \<Rightarrow> (addr \<Rightarrow> block \<Rightarrow> fault + heap) \<Rightarrow> fault + heap" where
  "with_block h p f =
     (case p of
        NULL \<Rightarrow> Inl NullPointer
      | Ptr a \<Rightarrow> (case h a of None \<Rightarrow> Inl InvalidPointer | Some cs \<Rightarrow> f a cs))"

definition store :: "heap \<Rightarrow> pointer \<Rightarrow> nat \<Rightarrow> T \<Rightarrow> fault + heap" where
  "store h p off x =
     with_block h p (\<lambda>a cs.
       if off < length cs then Inr (h(a \<mapsto> cs[off := Some x])) else Inl OutOfBounds)"

definition memset :: "heap \<Rightarrow> pointer \<Rightarrow> nat \<Rightarrow> 8 word \<Rightarrow> size_t \<Rightarrow> fault + heap" where
  "memset h p off c n =
     with_block h p (\<lambda>a cs.
       let k = cells_of_bytes n; x = (ucast c :: T) * 0x01010101 in
       if off + k \<le> length cs
       then Inr (h(a \<mapsto> take off cs @ replicate k (Some x) @ drop (off + k) cs))
       else Inl OutOfBounds)"

definition memmove :: "heap \<Rightarrow> pointer \<Rightarrow> nat \<Rightarrow> nat \<Rightarrow> size_t \<Rightarrow> fault + heap" where
  "memmove h p dst src n =
     with_block h p (\<lambda>a cs.
       let k = cells_of_bytes n in
       if src + k \<le> length cs \<and> dst + k \<le> length cs
       then Inr (h(a \<mapsto> take dst cs @ take k (drop src cs) @ drop (dst + k) cs))
       else Inl OutOfBounds)"

subsection \<open>The functions of vector.c\<close>

definition vector_reserve :: "alloc \<Rightarrow> heap \<Rightarrow> vector \<Rightarrow> size_t \<Rightarrow> fault + (int \<times> heap \<times> vector)" where
  "vector_reserve ch h vec count =
     (if count \<le> capacity vec then Inr (OK, h, vec)
      else
        (case realloc ch h (contents vec) (count * sizeof_T) of
           Inl e \<Rightarrow> Inl e
         | Inr (h', ptr) \<Rightarrow>
             if ptr = NULL then Inr (BAD_ALLOC, h', vec)
             else Inr (OK, h', vec\<lparr>contents := ptr, capacity := count\<rparr>)))"

definition vector_init :: "alloc \<Rightarrow> heap \<Rightarrow> vector \<Rightarrow> fault + (int \<times> heap \<times> vector)" where
  "vector_init ch h vec =
     vector_reserve ch h (vec\<lparr>contents := NULL, size_v := 0, capacity := 0\<rparr>) INIT_CAPACITY"

definition vector_clear :: "heap \<Rightarrow> vector \<Rightarrow> fault + (heap \<times> vector)" where
  "vector_clear h vec =
     (case free h (contents vec) of
        Inl e \<Rightarrow> Inl e
      | Inr h' \<Rightarrow> Inr (h', vec\<lparr>size_v := 0, capacity := 0\<rparr>))"

text \<open>
  In \<^verbatim>\<open>vector_resize\<close> the \<^verbatim>\<open>memset\<close> goes through \<^verbatim>\<open>vec->contents\<close>, which is still the
  pointer from before the \<^verbatim>\<open>realloc\<close>, and starts at offset \<^verbatim>\<open>count\<close>.
\<close>

definition vector_resize :: "alloc \<Rightarrow> heap \<Rightarrow> vector \<Rightarrow> size_t \<Rightarrow> fault + (int \<times> heap \<times> vector)" where
  "vector_resize ch h vec count =
     (case realloc ch h (contents vec) (count * sizeof_T) of
        Inl e \<Rightarrow> Inl e
      | Inr (h1, ptr) \<Rightarrow>
          if ptr = NULL \<and> count \<noteq> 0 then Inr (BAD_ALLOC, h1, vec)
          else
            (case (if count > size_v vec
                   then memset h1 (contents vec) (unat count) 0 ((count - size_v vec) * sizeof_T)
                   else Inr h1) of
               Inl e \<Rightarrow> Inl e
             | Inr h2 \<Rightarrow> Inr (OK, h2, vec\<lparr>contents := ptr, size_v := count, capacity := count\<rparr>)))"

text \<open>The loop of \<^verbatim>\<open>vector_assign\<close>: \<open>i\<close> is the distance of \<^verbatim>\<open>ptr\<close> from \<^verbatim>\<open>vec->contents\<close>.\<close>

function assign_loop :: "heap \<Rightarrow> pointer \<Rightarrow> nat \<Rightarrow> nat \<Rightarrow> T \<Rightarrow> fault + heap" where
  "assign_loop h p i n x =
     (if i < n
      then (case store h p i x of Inl e \<Rightarrow> Inl e | Inr h' \<Rightarrow> assign_loop h' p (Suc i) n x)
      else Inr h)"
  by pat_completeness auto
termination
  by (relation "measure (\<lambda>(h, p, i, n, x). n - i)") auto

declare assign_loop.simps [simp del]

definition vector_assign :: "alloc \<Rightarrow> heap \<Rightarrow> vector \<Rightarrow> size_t \<Rightarrow> T \<Rightarrow> fault + (int \<times> heap \<times> vector)" where
  "vector_assign ch h vec count val =
     (case vector_resize ch h vec count of
        Inl e \<Rightarrow> Inl e
      | Inr (r, h1, vec1) \<Rightarrow>
          if r \<noteq> 0
          then (case assign_loop h1 (contents vec1) 0 (unat count) val of
                  Inl e \<Rightarrow> Inl e
                | Inr h2 \<Rightarrow> Inr (OK, h2, vec1))
          else Inr (BAD_ALLOC, h1, vec1))"

text \<open>
  \<^verbatim>\<open>vector_push_back\<close> and \<^verbatim>\<open>vector_insert\<close> start with the same guarded call: the
  reservation is made only when the vector is full, and a zero result ends the function.
\<close>

definition vector_push_back :: "alloc \<Rightarrow> heap \<Rightarrow> vector \<Rightarrow> T \<Rightarrow> fault + (int \<times> heap \<times> vector)" where
  "vector_push_back ch h vec val =
     (case (if size_v vec = capacity vec
            then vector_reserve ch h vec (SCALING_FACTOR * size_v vec + 1)
            else Inr (OK, h, vec)) of
        Inl e \<Rightarrow> Inl e
      | Inr (r, h1, vec1) \<Rightarrow>
          if r = 0 then Inr (BAD_ALLOC, h1, vec1)
          else
            (case store h1 (contents vec1) (unat (size_v vec1)) val of
               Inl e \<Rightarrow> Inl e
             | Inr h2 \<Rightarrow> Inr (OK, h2, vec1\<lparr>size_v := size_v vec1 + 1\<rparr>)))"

definition vector_pop_back :: "vector \<Rightarrow> int \<times> vector" where
  "vector_pop_back vec =
     (if size_v vec = 0 then (BAD_ALLOC, vec) else (OK, vec\<lparr>size_v := size_v vec - 1\<rparr>))"

definition vector_insert :: "alloc \<Rightarrow> heap \<Rightarrow> vector \<Rightarrow> size_t \<Rightarrow> T \<Rightarrow> fault + (int \<times> heap \<times> vector)" where
  "vector_insert ch h vec index val =
     (if index < 0 \<or> index \<ge> size_v vec then Inr (BAD_ALLOC, h, vec)
      else
        (case (if size_v vec = capacity vec
               then vector_reserve ch h vec (SCALING_FACTOR * size_v vec + 1)
               else Inr (OK, h, vec)) of
           Inl e \<Rightarrow> Inl e
         | Inr (r, h1, vec1) \<Rightarrow>
             if r = 0 then Inr (BAD_ALLOC, h1, vec1)
             else
               (case memmove h1 (contents vec1) (unat index + 1) (unat index)
                       ((size_v vec1 - index) * sizeof_T) of
                  Inl e \<Rightarrow> Inl e
                | Inr h2 \<Rightarrow>
                    (case store h2 (contents vec1) (unat index) val of
                       Inl e \<Rightarrow> Inl e
                     | Inr h3 \<Rightarrow> Inr (OK, h3, vec1\<lparr>size_v := size_v vec1 + 1\<rparr>)))))"

definition vector_erase_range :: "heap \<Rightarrow> vector \<Rightarrow> size_t \<Rightarrow> size_t \<Rightarrow> fault + (int \<times> heap \<times> vector)" where
  "vector_erase_range h vec leftmost rightmost =
     (if leftmost > rightmost \<or> leftmost < 0 \<or> rightmost \<ge> size_v vec
      then Inr (BAD_ALLOC, h, vec)
      else
        (case memmove h (contents vec) (unat leftmost) (unat rightmost + 1)
                ((size_v vec - rightmost - 1) * sizeof_T) of
           Inl e \<Rightarrow> Inl e
         | Inr h' \<Rightarrow> Inr (OK, h', vec\<lparr>size_v := size_v vec - (rightmost - leftmost + 1)\<rparr>)))"

definition vector_erase :: "heap \<Rightarrow> vector \<Rightarrow> size_t \<Rightarrow> fault + (int \<times> heap \<times> vector)" where
  "vector_erase h vec index = vector_erase_range h vec index index"

subsection \<open>\<^verbatim>\<open>vector_resize\<close> and \<^verbatim>\<open>vector_assign\<close> as a machine runs them\<close>

text \<open>
  C leaves the \<^verbatim>\<open>memset\<close> of \<^verbatim>\<open>vector_resize\<close> undefined whenever it writes outside a
  live block, and \<open>vector_resize\<close> above stops there with a fault. A machine does not
  stop: the bytes are written where the pointer says. The second reading below follows
  the same source lines and lets such a write land. Cells of a live block that lie in
  the range are filled; bytes beyond the end of the block, or behind a pointer to a
  block that was released, are in memory that no block of the model holds and change
  nothing here; a write through the null pointer still traps. Where \<open>memset\<close> returns,
  \<open>memset_machine\<close> returns the same heap. The reading is used to say what
  \<^verbatim>\<open>vector_assign\<close> leaves in the vector when the run goes on past that write.
\<close>

definition memset_machine :: "heap \<Rightarrow> pointer \<Rightarrow> nat \<Rightarrow> 8 word \<Rightarrow> size_t \<Rightarrow> fault + heap" where
  "memset_machine h p off c n =
     (case p of
        NULL \<Rightarrow> Inl NullPointer
      | Ptr a \<Rightarrow>
          (case h a of
             None \<Rightarrow> Inr h
           | Some cs \<Rightarrow>
               let k = cells_of_bytes n; x = (ucast c :: T) * 0x01010101 in
               Inr (h(a \<mapsto> take off cs @ replicate (min k (length cs - off)) (Some x) @
                              drop (off + k) cs))))"

definition vector_resize_machine :: "alloc \<Rightarrow> heap \<Rightarrow> vector \<Rightarrow> size_t \<Rightarrow> fault + (int \<times> heap \<times> vector)" where
  "vector_resize_machine ch h vec count =
     (case realloc ch h (contents vec) (count * sizeof_T) of
        Inl e \<Rightarrow> Inl e
      | Inr (h1, ptr) \<Rightarrow>
          if ptr = NULL \<and> count \<noteq> 0 then Inr (BAD_ALLOC, h1, vec)
          else
            (case (if count > size_v vec
                   then memset_machine h1 (contents vec) (unat count) 0
                          ((count - size_v vec) * sizeof_T)
                   else Inr h1) of
               Inl e \<Rightarrow> Inl e
             | Inr h2 \<Rightarrow> Inr (OK, h2, vec\<lparr>contents := ptr, size_v := count, capacity := count\<rparr>)))"

definition vector_assign_machine :: "alloc \<Rightarrow> heap \<Rightarrow> vector \<Rightarrow> size_t \<Rightarrow> T \<Rightarrow> fault + (int \<times> heap \<times> vector)" where
  "vector_assign_machine ch h vec count val =
     (case vector_resize_machine ch h vec count of
        Inl e \<Rightarrow> Inl e
      | Inr (r, h1, vec1) \<Rightarrow>
          if r \<noteq> 0
          then (case assign_loop h1 (contents vec1) 0 (unat count) val of
                  Inl e \<Rightarrow> Inl e
                | Inr h2 \<Rightarrow> Inr (OK, h2, vec1))
          else Inr (BAD_ALLOC, h1, vec1))"

subsection \<open>Observing a vector\<close>

text \<open>
  \<open>buffer\<close> is the live block that \<open>contents\<close> points to, if any; \<open>elements\<close> are its
  first \<open>size\<close> cells, the sequence the vector holds.
\<close>

definition buffer :: "heap \<Rightarrow> vector \<Rightarrow> block option" where
  "buffer h vec = (case contents vec of NULL \<Rightarrow> None | Ptr a \<Rightarrow> h a)"

definition elements :: "heap \<Rightarrow> vector \<Rightarrow> block" where
  "elements h vec = (case buffer h vec of None \<Rightarrow> [] | Some cs \<Rightarrow> take (unat (size_v vec)) cs)"

text \<open>
  A vector is well formed in a heap when its counters describe its buffer: the size is
  within the capacity, a buffer of \<open>capacity\<close> elements fits into the address space
  (\<open>capacity * sizeof(T)\<close> is below \<open>2 ^ 64\<close>), and the block that \<open>contents\<close>
  points to has exactly \<open>capacity\<close> cells; with no live block the capacity is 0.
\<close>

definition wf_vector :: "heap \<Rightarrow> vector \<Rightarrow> bool" where
  "wf_vector h vec \<longleftrightarrow>
     size_v vec \<le> capacity vec \<and> unat (capacity vec) < 2 ^ 62 \<and>
     (case buffer h vec of
        None \<Rightarrow> capacity vec = 0
      | Some cs \<Rightarrow> length cs = unat (capacity vec))"

text \<open>The two invariants as the specification words them.\<close>

definition spec_invariant :: "heap \<Rightarrow> vector \<Rightarrow> bool" where
  "spec_invariant h vec \<longleftrightarrow>
     size_v vec \<le> capacity vec \<and> ((buffer h vec = None) = (capacity vec = 0))"

text \<open>Every operation of the interface behind one type, to speak about all of them.\<close>

datatype operation =
    Init | Clear | Reserve size_t | Resize size_t | Assign size_t T | Push_back T
  | Pop_back | Insert size_t T | Erase_range size_t size_t | Erase size_t

definition returned :: "fault + (int \<times> heap \<times> vector) \<Rightarrow> fault + (int option \<times> heap \<times> vector)" where
  "returned r = (case r of Inl e \<Rightarrow> Inl e | Inr (c, h, vec) \<Rightarrow> Inr (Some c, h, vec))"

fun exec :: "alloc \<Rightarrow> operation \<Rightarrow> heap \<Rightarrow> vector \<Rightarrow> fault + (int option \<times> heap \<times> vector)" where
  "exec ch Init h vec = returned (vector_init ch h vec)"
| "exec ch Clear h vec =
     (case vector_clear h vec of Inl e \<Rightarrow> Inl e | Inr (h', vec') \<Rightarrow> Inr (None, h', vec'))"
| "exec ch (Reserve count) h vec = returned (vector_reserve ch h vec count)"
| "exec ch (Resize count) h vec = returned (vector_resize ch h vec count)"
| "exec ch (Assign count val) h vec = returned (vector_assign ch h vec count val)"
| "exec ch (Push_back val) h vec = returned (vector_push_back ch h vec val)"
| "exec ch Pop_back h vec = (case vector_pop_back vec of (c, vec') \<Rightarrow> Inr (Some c, h, vec'))"
| "exec ch (Insert index val) h vec = returned (vector_insert ch h vec index val)"
| "exec ch (Erase_range l r) h vec = returned (vector_erase_range h vec l r)"
| "exec ch (Erase index) h vec = returned (vector_erase h vec index)"

text \<open>
  The operations whose count argument, times \<open>sizeof(T)\<close>, fits into \<open>size_t\<close>.
\<close>

fun counts_fit :: "operation \<Rightarrow> bool" where
  "counts_fit (Reserve count) = (unat count < 2 ^ 62)"
| "counts_fit (Resize count) = (unat count < 2 ^ 62)"
| "counts_fit (Assign count val) = (unat count < 2 ^ 62)"
| "counts_fit _ = True"

subsection \<open>Concrete states used in the examples\<close>

definition heap0 :: heap where "heap0 = Map.empty"
definition vec0 :: vector where "vec0 = \<lparr>contents = NULL, size_v = 0, capacity = 0\<rparr>"
definition heap8 :: heap where "heap8 = heap0(1 \<mapsto> replicate 8 None)"
definition vec8 :: vector where "vec8 = \<lparr>contents = Ptr 1, size_v = 0, capacity = 8\<rparr>"
definition heap_three :: heap where "heap_three = heap0(1 \<mapsto> [Some 10, Some 20, Some 30])"
definition vec_three :: vector where "vec_three = \<lparr>contents = Ptr 1, size_v = 3, capacity = 3\<rparr>"
definition heap_one :: heap where "heap_one = heap0(1 \<mapsto> [Some 10])"
definition vec_one :: vector where "vec_one = \<lparr>contents = Ptr 1, size_v = 1, capacity = 1\<rparr>"
definition heap_ins :: heap where
  "heap_ins = heap0(1 \<mapsto> [Some 10, Some 99, Some 20, Some 30, None, None, None])"
definition vec_ins :: vector where "vec_ins = \<lparr>contents = Ptr 1, size_v = 4, capacity = 7\<rparr>"
definition heap_erased :: heap where "heap_erased = heap0(1 \<mapsto> [Some 30, Some 20, Some 30])"
definition vec_erased :: vector where "vec_erased = \<lparr>contents = Ptr 1, size_v = 1, capacity = 3\<rparr>"
definition vec_huge :: vector where
  "vec_huge = \<lparr>contents = Ptr 1, size_v = 3, capacity = 4611686018427387905\<rparr>"
definition heap_empty_block :: heap where "heap_empty_block = heap0(1 \<mapsto> [])"
definition vec_empty_block :: vector where
  "vec_empty_block = \<lparr>contents = Ptr 1, size_v = 0, capacity = 0\<rparr>"
definition heap_pushed :: heap where
  "heap_pushed = heap0(1 \<mapsto> [Some 10, None, None, None, None, None, None, None])"
definition heap_spare :: heap where
  "heap_spare = heap0(1 \<mapsto> [Some 10, Some 20, Some 30, None])"
definition vec_spare :: vector where "vec_spare = \<lparr>contents = Ptr 1, size_v = 3, capacity = 4\<rparr>"
definition heap_spare_ins :: heap where
  "heap_spare_ins = heap0(1 \<mapsto> [Some 99, Some 10, Some 20, Some 30])"

subsection \<open>Runs of \<open>vector_push_back\<close>\<close>

text \<open>
  A sequence of \<^verbatim>\<open>vector_push_back\<close> calls, each with the value pushed and with what the
  allocator does if that call reaches \<^verbatim>\<open>realloc\<close>. The run stops at the first call that
  returns \<open>BAD_ALLOC\<close>.
\<close>

fun push_all :: "(alloc \<times> T) list \<Rightarrow> heap \<Rightarrow> vector \<Rightarrow> fault + (int \<times> heap \<times> vector)" where
  "push_all [] h vec = Inr (OK, h, vec)"
| "push_all ((ch, x) # rest) h vec =
     (case vector_push_back ch h vec x of
        Inl e \<Rightarrow> Inl e
      | Inr (r, h', vec') \<Rightarrow> if r = 0 then Inr (BAD_ALLOC, h', vec') else push_all rest h' vec')"

section \<open>Properties\<close>

subsection \<open>Byte counts and the allocator\<close>

lemma cells_of_bytes_times: "cells_of_bytes (c * sizeof_T) = unat c mod 2 ^ 62"
proof -
  have "unat (c * 4) = (unat c * 4) mod 2 ^ 64"
    by (simp add: unat_word_ariths)
  also have "\<dots> = (unat c * 4) mod (2 ^ 62 * 4)" by simp
  also have "\<dots> = (unat c mod 2 ^ 62) * 4"
    by (simp only: mult_mod_left)
  finally show ?thesis by (simp add: cells_of_bytes_def)
qed

lemma cells_of_bytes_small: "unat c < 2 ^ 62 \<Longrightarrow> cells_of_bytes (c * sizeof_T) = unat c"
  by (simp add: cells_of_bytes_times)

lemma realloc_Inr:
  assumes "realloc ch h p n = Inr (h', q)"
  shows "(q = NULL \<and> (h' = h \<or> n = 0 \<and> h' = release h p)) \<or>
         (\<exists>a cs. q = Ptr a \<and> pointee h p = Inr cs \<and>
            h' = (release h p)(a \<mapsto> resize_block (cells_of_bytes n) cs))"
  using assms by (auto simp: realloc_def split: sum.splits alloc.splits if_splits)

lemma reserve_noop: "count \<le> capacity vec \<Longrightarrow> vector_reserve ch h vec count = Inr (OK, h, vec)"
  by (simp add: vector_reserve_def)

lemma reserve_grown:
  assumes "vector_reserve ch h vec count = Inr (r, h', vec')" "\<not> count \<le> capacity vec" "r \<noteq> 0"
  shows "\<exists>a cs. r = OK \<and> pointee h (contents vec) = Inr cs \<and>
           vec' = vec\<lparr>contents := Ptr a, capacity := count\<rparr> \<and>
           h' = (release h (contents vec))(a \<mapsto> resize_block (cells_of_bytes (count * sizeof_T)) cs)"
  using assms
  by (auto simp: vector_reserve_def split: sum.splits if_splits dest!: realloc_Inr)

lemma reserve_refused:
  assumes "vector_reserve ch h vec count = Inr (r, h', vec')" "r = 0"
  shows "vec' = vec \<and> \<not> count \<le> capacity vec \<and>
         (h' = h \<or> count * sizeof_T = 0 \<and> h' = release h (contents vec))"
  using assms
  by (auto simp: vector_reserve_def split: sum.splits if_splits dest!: realloc_Inr)

subsection \<open>\<open>vector_insert\<close> at the end\<close>

text \<open>
  Claim C5. An insert at \<open>index = size\<close> returns \<open>BAD_ALLOC\<close> and leaves heap and vector
  as they were; so does every insert into a vector of size 0, whatever the index.
\<close>

theorem insert_at_size_rejected:
  "vector_insert ch h vec (size_v vec) val = Inr (BAD_ALLOC, h, vec) \<and>
   vector_insert ch h (vec\<lparr>size_v := 0\<rparr>) index val = Inr (BAD_ALLOC, h, vec\<lparr>size_v := 0\<rparr>)"
  by (simp add: vector_insert_def)

subsection \<open>\<open>vector_init\<close>\<close>

text \<open>
  Claim C1 says that a successful \<open>vector_init\<close> leaves capacity 0 and no buffer. On the
  empty heap, with an allocator that grants the request at address 1, it returns \<open>OK\<close>
  with capacity 8 and a live buffer.
\<close>

theorem init_counterexample:
  "vector_init (Grant 1) heap0 vec0 = Inr (OK, heap8, vec8) \<and>
   capacity vec8 \<noteq> 0 \<and> buffer heap8 vec8 \<noteq> None"
  by (simp add: vector_init_def vector_reserve_def realloc_def heap0_def vec0_def heap8_def vec8_def
      cells_of_bytes_def resize_block_def buffer_def)

text \<open>
  Claim C1, amended. A successful \<open>vector_init\<close> leaves size 0 and capacity
  \<open>INIT_CAPACITY = 8\<close>, with a buffer of 8 indeterminate cells allocated by
  \<open>vector_init\<close> itself.
\<close>

theorem init_reserves_eagerly:
  assumes "vector_init ch h vec = Inr (OK, h', vec')"
  shows "size_v vec' = 0 \<and> capacity vec' = INIT_CAPACITY \<and>
         buffer h' vec' = Some (replicate 8 None) \<and> wf_vector h' vec'"
proof -
  let ?v = "vec\<lparr>contents := NULL, size_v := 0, capacity := 0\<rparr>"
  have r: "vector_reserve ch h ?v INIT_CAPACITY = Inr (OK, h', vec')"
    using assms by (simp add: vector_init_def)
  have "\<not> INIT_CAPACITY \<le> capacity ?v" by simp
  from reserve_grown [OF r this] obtain a cs where
    cs: "pointee h (contents ?v) = Inr cs" and
    v: "vec' = ?v\<lparr>contents := Ptr a, capacity := INIT_CAPACITY\<rparr>" and
    h: "h' = (release h (contents ?v))(a \<mapsto> resize_block (cells_of_bytes (INIT_CAPACITY * sizeof_T)) cs)"
    by auto
  from cs have "cs = []" by simp
  moreover have "cells_of_bytes (INIT_CAPACITY * sizeof_T) = 8"
    by (simp add: cells_of_bytes_def)
  ultimately show ?thesis
    using v h by (simp add: buffer_def resize_block_def wf_vector_def)
qed

theorem init_reserves_eagerly_witness:
  "vector_init (Grant 1) heap0 vec0 = Inr (OK, heap8, vec8) \<and>
   size_v vec8 = 0 \<and> capacity vec8 = INIT_CAPACITY \<and>
   buffer heap8 vec8 = Some (replicate 8 None) \<and> wf_vector heap8 vec8"
proof -
  have e: "vector_init (Grant 1) heap0 vec0 = Inr (OK, heap8, vec8)"
    by (simp add: vector_init_def vector_reserve_def realloc_def heap0_def vec0_def heap8_def
        vec8_def cells_of_bytes_def resize_block_def)
  show ?thesis using e init_reserves_eagerly [OF e] by simp
qed

text \<open>
  Claim C10. When \<open>vector_init\<close> does not return \<open>OK\<close>, it returns \<open>BAD_ALLOC\<close>, the
  heap is untouched and the vector is the empty one: null contents, size 0, capacity 0.
  That state is well formed, and every later operation on it is therefore the operation
  on an unallocated empty vector.
\<close>

theorem init_failure_leaves_empty:
  assumes "vector_init ch h vec = Inr (r, h', vec')" "r \<noteq> OK"
  shows "r = BAD_ALLOC \<and> h' = h \<and> vec' = vec0 \<and> buffer h' vec' = None \<and>
         wf_vector h' vec' \<and> spec_invariant h' vec' \<and>
         (\<forall>c op. exec c op h' vec' = exec c op h vec0)"
proof -
  let ?v = "vec\<lparr>contents := NULL, size_v := 0, capacity := 0\<rparr>"
  have v0: "?v = vec0" by (cases vec) (simp add: vec0_def)
  have r: "vector_reserve ch h ?v INIT_CAPACITY = Inr (r, h', vec')"
    using assms by (simp add: vector_init_def)
  have "r = 0"
    using r assms(2) by (auto simp: vector_reserve_def split: sum.splits if_splits)
  from reserve_refused [OF r this] have "vec' = ?v" "h' = h" by auto
  with v0 have "vec' = vec0" "h' = h" by simp_all
  with \<open>r = 0\<close> show ?thesis
    by (simp add: vec0_def buffer_def wf_vector_def spec_invariant_def)
qed

theorem init_failure_leaves_empty_witness:
  "vector_init Refuse heap8 vec8 = Inr (BAD_ALLOC, heap8, vec0) \<and>
   buffer heap8 vec0 = None \<and> wf_vector heap8 vec0 \<and> spec_invariant heap8 vec0 \<and>
   (\<forall>c op. exec c op heap8 vec0 = exec c op heap8 vec0)"
proof -
  have e: "vector_init Refuse heap8 vec8 = Inr (BAD_ALLOC, heap8, vec0)"
    by (simp add: vector_init_def vector_reserve_def realloc_def vec0_def vec8_def)
  show ?thesis using e init_failure_leaves_empty [OF e] by simp
qed

subsection \<open>Growing with \<open>vector_resize\<close> and \<open>vector_assign\<close>\<close>

lemma length_resize_block [simp]: "length (resize_block n cs) = n"
  by (simp add: resize_block_def)

lemma memset_Inr:
  assumes "memset h p off c n = Inr h'"
  shows "\<exists>a cs. p = Ptr a \<and> h a = Some cs \<and> off + cells_of_bytes n \<le> length cs"
  using assms
  by (auto simp: memset_def with_block_def Let_def split: pointer.splits option.splits if_splits)

text \<open>
  A resize to more than the size never returns \<open>OK\<close>: when the allocation succeeds, the
  \<^verbatim>\<open>memset\<close> starts at offset \<open>count\<close> of the old pointer, which is null, or freed by
  the move, or a block of \<open>count\<close> cells that ends where the write begins.
\<close>

lemma resize_grow_never_ok:
  assumes "size_v vec < count"
  shows "vector_resize ch h vec count \<noteq> Inr (OK, h', vec')"
proof
  assume ok: "vector_resize ch h vec count = Inr (OK, h', vec')"
  from assms have c0: "count \<noteq> 0" by auto
  from assms have lt: "unat (size_v vec) < unat count" by (simp add: word_less_nat_alt)
  have us: "unat (count - size_v vec) = unat count - unat (size_v vec)"
    using assms by (intro unat_sub) simp
  from ok c0 obtain h1 a cs h2 where
    re: "realloc ch h (contents vec) (count * sizeof_T) = Inr (h1, Ptr a)" and
    ms: "memset h1 (contents vec) (unat count) 0 ((count - size_v vec) * sizeof_T) = Inr h2"
    using assms
    apply (simp add: vector_resize_def split: sum.splits prod.splits if_splits)
    apply (metis pointer.exhaust)
    done
  from realloc_Inr [OF re] obtain cs where
    cs: "pointee h (contents vec) = Inr cs" and
    h1: "h1 = (release h (contents vec))(a \<mapsto> resize_block (cells_of_bytes (count * sizeof_T)) cs)"
    by auto
  show False
  proof (cases "contents vec")
    case NULL
    with ms show False by (simp add: memset_def with_block_def)
  next
    case (Ptr b)
    show False
    proof (cases "b = a")
      case True
      from memset_Inr [OF ms] Ptr True h1
      have "unat count + cells_of_bytes ((count - size_v vec) * sizeof_T)
              \<le> cells_of_bytes (count * sizeof_T)"
        by auto
      then have "unat count + (unat count - unat (size_v vec)) mod 2 ^ 62 \<le> unat count mod 2 ^ 62"
        by (simp only: cells_of_bytes_times us)
      moreover have "unat count mod 2 ^ 62 \<le> unat count" by simp
      ultimately have z: "(unat count - unat (size_v vec)) mod 2 ^ 62 = 0"
        and e: "unat count mod 2 ^ 62 = unat count"
        by linarith+
      from e have "unat count < 2 ^ 62"
        by (metis mod_less_divisor zero_less_numeral zero_less_power)
      with lt have "(unat count - unat (size_v vec)) mod 2 ^ 62 = unat count - unat (size_v vec)"
        by (intro mod_less) simp
      with z lt show False by simp
    next
      case False
      with memset_Inr [OF ms] Ptr h1 show False by auto
    qed
  qed
qed

lemma resize_code: "vector_resize ch h vec count = Inr (r, h', vec') \<Longrightarrow> r = OK \<or> r = BAD_ALLOC"
  unfolding vector_resize_def
  by (simp split: sum.splits prod.splits if_splits)

lemma assign_grow_never_ok:
  assumes "size_v vec < count"
  shows "vector_assign ch h vec count val \<noteq> Inr (OK, h', vec')"
proof
  assume "vector_assign ch h vec count val = Inr (OK, h', vec')"
  then obtain r h1 vec1 where rs: "vector_resize ch h vec count = Inr (r, h1, vec1)" and "r \<noteq> 0"
    unfolding vector_assign_def
    by (simp split: sum.splits prod.splits if_splits)
  with resize_code [OF rs] have "vector_resize ch h vec count = Inr (OK, h1, vec1)" by simp
  with resize_grow_never_ok [OF assms] show False by blast
qed

text \<open>
  Claim C2 at a failing input. The vector is the one a successful \<open>vector_init\<close> leaves
  (size 0, capacity 8); \<open>vector_resize\<close> to 3 elements does not return: with the block
  resized in place the zero fill starts at cell 3 of a block of 3 cells, with the block
  moved it goes through the freed pointer, and on the empty vector it goes through
  \<open>NULL + 3\<close>. No element of \<open>[size, count)\<close> is written.
\<close>

theorem resize_grow_faults:
  "vector_resize (Grant 1) heap8 vec8 3 = Inl OutOfBounds \<and>
   vector_resize (Grant 2) heap8 vec8 3 = Inl InvalidPointer \<and>
   vector_resize (Grant 1) heap0 vec0 3 = Inl NullPointer"
  by (simp add: vector_resize_def realloc_def memset_def with_block_def heap0_def vec0_def
      heap8_def vec8_def cells_of_bytes_def resize_block_def)

subsection \<open>The growth step of \<open>vector_push_back\<close> and \<open>vector_insert\<close>\<close>

lemma unat_double_plus1:
  "unat (x :: size_t) < 2 ^ 62 \<Longrightarrow> unat (SCALING_FACTOR * x + 1) = 2 * unat x + 1"
  by (simp add: unat_word_ariths)

lemma mod_exceeds:
  fixes s :: nat
  assumes "s < 2 ^ 62" "s < (2 * s + 1) mod 2 ^ 62"
  shows "2 * s + 1 < 2 ^ 62"
proof (rule ccontr)
  assume "\<not> 2 * s + 1 < 2 ^ 62"
  then have ge: "(2::nat) ^ 62 \<le> 2 * s + 1" by simp
  have "(2 * s + 1) mod 2 ^ 62 = (2 * s + 1 - 2 ^ 62) mod 2 ^ 62"
    using ge by (rule le_mod_geq)
  also have "\<dots> = 2 * s + 1 - 2 ^ 62"
    using assms(1) by (intro mod_less) simp
  finally show False using assms by simp
qed

lemma odd_mod_nonzero: "(2 * s + 1) mod 2 ^ 62 \<noteq> (0::nat)"
proof
  assume "(2 * s + 1) mod 2 ^ 62 = (0::nat)"
  then have "(2::nat) ^ 62 dvd 2 * s + 1" by (simp add: mod_eq_0_iff_dvd)
  moreover have "(2::nat) dvd 2 ^ 62" by simp
  ultimately have "(2::nat) dvd 2 * s + 1" by (rule dvd_trans [rotated])
  then show False by simp
qed

lemma store_Inr:
  assumes "store h p off x = Inr h'"
  shows "\<exists>a cs. p = Ptr a \<and> h a = Some cs \<and> off < length cs \<and> h' = h(a \<mapsto> cs[off := Some x])"
  using assms
  by (auto simp: store_def with_block_def split: pointer.splits option.splits if_splits)

lemma memmove_Inr:
  assumes "memmove h p dst src n = Inr h'"
  shows "\<exists>a cs. p = Ptr a \<and> h a = Some cs \<and> src + cells_of_bytes n \<le> length cs \<and>
           dst + cells_of_bytes n \<le> length cs \<and>
           h' = h(a \<mapsto> take dst cs @ take (cells_of_bytes n) (drop src cs) @ drop (dst + cells_of_bytes n) cs)"
  using assms
  by (auto simp: memmove_def with_block_def Let_def split: pointer.splits option.splits if_splits)

lemma wf_size_bound: "wf_vector h vec \<Longrightarrow> unat (size_v vec) \<le> unat (capacity vec) \<and> unat (capacity vec) < 2 ^ 62"
  by (simp add: wf_vector_def word_le_nat_alt)

lemma wf_live:
  assumes "wf_vector h vec" "capacity vec \<noteq> 0"
  shows "\<exists>a cs. contents vec = Ptr a \<and> h a = Some cs \<and> length cs = unat (capacity vec)"
  using assms by (auto simp: wf_vector_def buffer_def split: pointer.splits option.splits)

lemma pointee_elements:
  assumes "wf_vector h vec" "pointee h (contents vec) = Inr cs" "size_v vec = capacity vec"
  shows "elements h vec = cs \<and> length cs = unat (size_v vec)"
  using assms
  by (cases "contents vec") (auto simp: wf_vector_def buffer_def elements_def split: option.splits)

text \<open>
  After the guarded reservation has let the function go on, the vector points to a live
  block. If that block has a cell at index \<open>size\<close>, it has \<open>capacity\<close> cells, the old
  elements are its prefix and the capacity is the old one or \<open>2 * size + 1\<close>. If it has
  none (the byte count of the request wrapped around), the next access faults.
\<close>

lemma room_step:
  assumes wf: "wf_vector h vec"
    and g: "(if size_v vec = capacity vec
             then vector_reserve ch h vec (SCALING_FACTOR * size_v vec + 1)
             else Inr (OK, h, vec)) = Inr (r, h1, vec1)"
    and r: "r \<noteq> 0"
  shows "\<exists>a cs1. contents vec1 = Ptr a \<and> h1 a = Some cs1 \<and> size_v vec1 = size_v vec \<and> r = OK \<and>
           (unat (size_v vec) < length cs1 \<longrightarrow>
              take (unat (size_v vec)) cs1 = elements h vec \<and>
              length cs1 = unat (capacity vec1) \<and> unat (capacity vec1) < 2 ^ 62 \<and>
              (capacity vec1 = capacity vec \<or>
               size_v vec = capacity vec \<and> capacity vec1 = SCALING_FACTOR * size_v vec + 1 \<and>
               unat (capacity vec1) = 2 * unat (size_v vec) + 1))"
proof (cases "size_v vec = capacity vec")
  case False
  with g have same: "r = OK" "h1 = h" "vec1 = vec" by simp_all
  from wf False have "capacity vec \<noteq> 0" by (auto simp: wf_vector_def)
  from wf_live [OF wf this] obtain a cs where
    "contents vec = Ptr a" "h a = Some cs" "length cs = unat (capacity vec)" by auto
  moreover from this have "elements h vec = take (unat (size_v vec)) cs"
    by (simp add: elements_def buffer_def)
  ultimately show ?thesis
    using same wf_size_bound [OF wf] by auto
next
  case True
  let ?s = "unat (size_v vec)"
  let ?count = "SCALING_FACTOR * size_v vec + 1"
  from wf_size_bound [OF wf] have s: "?s < 2 ^ 62" by simp
  then have uc: "unat ?count = 2 * ?s + 1" by (rule unat_double_plus1)
  have nle: "\<not> ?count \<le> capacity vec"
    using True uc by (simp add: word_le_nat_alt)
  from g True have res: "vector_reserve ch h vec ?count = Inr (r, h1, vec1)" by simp
  from reserve_grown [OF res nle r] obtain a cs where
    ok: "r = OK" and cs: "pointee h (contents vec) = Inr cs" and
    v1: "vec1 = vec\<lparr>contents := Ptr a, capacity := ?count\<rparr>" and
    h1: "h1 = (release h (contents vec))(a \<mapsto> resize_block (cells_of_bytes (?count * sizeof_T)) cs)"
    by auto
  let ?cs1 = "resize_block (cells_of_bytes (?count * sizeof_T)) cs"
  have len: "length ?cs1 = (2 * ?s + 1) mod 2 ^ 62"
    by (simp only: length_resize_block cells_of_bytes_times uc)
  from pointee_elements [OF wf cs True] have el: "elements h vec = cs" "length cs = ?s" by simp_all
  have "take ?s ?cs1 = elements h vec \<and> length ?cs1 = unat (capacity vec1) \<and>
        unat (capacity vec1) < 2 ^ 62 \<and> capacity vec1 = ?count \<and> unat (capacity vec1) = 2 * ?s + 1"
    if lt: "?s < length ?cs1"
  proof -
    from lt len have "?s < (2 * ?s + 1) mod 2 ^ 62" by simp
    from mod_exceeds [OF s this] have small: "2 * ?s + 1 < 2 ^ 62" .
    with len have l: "length ?cs1 = 2 * ?s + 1" by simp
    then have "cells_of_bytes (?count * sizeof_T) = 2 * ?s + 1" by simp
    then have "take ?s ?cs1 = cs"
      using el by (simp add: resize_block_def)
    with el l small uc v1 show ?thesis by simp
  qed
  with ok v1 h1 True show ?thesis by auto
qed

lemma push_back_ok:
  assumes wf: "wf_vector h vec"
    and pb: "vector_push_back ch h vec x = Inr (r, h', vec')"
    and r: "r \<noteq> 0"
  shows "r = OK \<and> wf_vector h' vec' \<and> elements h' vec' = elements h vec @ [Some x] \<and>
         size_v vec' = size_v vec + 1 \<and> unat (size_v vec') = unat (size_v vec) + 1 \<and>
         (capacity vec' = capacity vec \<or>
          size_v vec = capacity vec \<and> capacity vec' = SCALING_FACTOR * size_v vec + 1 \<and>
          unat (capacity vec') = 2 * unat (size_v vec) + 1)"
proof -
  from pb r obtain r1 h1 vec1 where
    g: "(if size_v vec = capacity vec
         then vector_reserve ch h vec (SCALING_FACTOR * size_v vec + 1)
         else Inr (OK, h, vec)) = Inr (r1, h1, vec1)" and r1: "r1 \<noteq> 0" and
    st: "store h1 (contents vec1) (unat (size_v vec1)) x = Inr h'" and
    v': "vec' = vec1\<lparr>size_v := size_v vec1 + 1\<rparr>" and rok: "r = OK"
    unfolding vector_push_back_def
    by (simp split: sum.splits prod.splits if_splits)
  let ?s = "unat (size_v vec)"
  from room_step [OF wf g r1] obtain a cs1 where
    c1: "contents vec1 = Ptr a" and b1: "h1 a = Some cs1" and s1: "size_v vec1 = size_v vec" and
    room: "?s < length cs1 \<longrightarrow>
              take ?s cs1 = elements h vec \<and>
              length cs1 = unat (capacity vec1) \<and> unat (capacity vec1) < 2 ^ 62 \<and>
              (capacity vec1 = capacity vec \<or>
               size_v vec = capacity vec \<and> capacity vec1 = SCALING_FACTOR * size_v vec + 1 \<and>
               unat (capacity vec1) = 2 * ?s + 1)"
    by blast
  from store_Inr [OF st] c1 b1 s1 have lt: "?s < length cs1" and
    h': "h' = h1(a \<mapsto> cs1[?s := Some x])" by auto
  from room lt have tk: "take ?s cs1 = elements h vec" and len: "length cs1 = unat (capacity vec1)"
    and cap: "unat (capacity vec1) < 2 ^ 62"
    and grow: "capacity vec1 = capacity vec \<or>
               size_v vec = capacity vec \<and> capacity vec1 = SCALING_FACTOR * size_v vec + 1 \<and>
               unat (capacity vec1) = 2 * ?s + 1"
    by simp_all
  have us: "unat (size_v vec + 1) = ?s + 1"
    using lt len cap by (simp add: unat_word_ariths)
  have buf: "buffer h' vec' = Some (cs1[?s := Some x])"
    using v' c1 h' by (simp add: buffer_def)
  have "elements h' vec' = take (?s + 1) (cs1[?s := Some x])"
    using buf v' s1 us by (simp add: elements_def)
  also have "\<dots> = take ?s cs1 @ [Some x]"
    using lt by (simp add: take_Suc_conv_app_nth)
  finally have el: "elements h' vec' = elements h vec @ [Some x]" using tk by simp
  have "wf_vector h' vec'"
    using buf v' s1 us lt len cap by (simp add: wf_vector_def word_le_nat_alt)
  with rok el v' s1 us grow show ?thesis by simp
qed

lemma push_back_refused:
  assumes wf: "wf_vector h vec"
    and pb: "vector_push_back ch h vec x = Inr (r, h', vec')"
    and r: "r = 0"
  shows "h' = h \<and> vec' = vec \<and> size_v vec = capacity vec"
proof -
  let ?count = "SCALING_FACTOR * size_v vec + 1"
  from pb r have full: "size_v vec = capacity vec"
    and res: "vector_reserve ch h vec ?count = Inr (0, h', vec')"
    unfolding vector_push_back_def
    by (simp_all split: sum.splits prod.splits if_splits)
  from wf_size_bound [OF wf] have "unat (size_v vec) < 2 ^ 62" by simp
  then have "unat ?count = 2 * unat (size_v vec) + 1" by (rule unat_double_plus1)
  then have "cells_of_bytes (?count * sizeof_T) \<noteq> 0"
    by (simp only: cells_of_bytes_times odd_mod_nonzero not_False_eq_True)
  then have "?count * sizeof_T \<noteq> 0"
    by (auto simp: cells_of_bytes_def)
  with reserve_refused [OF res] full show ?thesis by auto
qed

subsection \<open>\<open>vector_push_back\<close>\<close>

lemma push_all_ok:
  assumes "wf_vector h vec" "push_all ps h vec = Inr (OK, h', vec')"
  shows "wf_vector h' vec' \<and> unat (size_v vec') = unat (size_v vec) + length ps \<and>
         elements h' vec' = elements h vec @ map (\<lambda>p. Some (snd p)) ps"
  using assms
proof (induction ps arbitrary: h vec)
  case Nil
  then show ?case by simp
next
  case (Cons p ps)
  obtain ch x where p: "p = (ch, x)" by (cases p)
  from Cons.prems(2) p obtain r h1 vec1 where
    pb: "vector_push_back ch h vec x = Inr (r, h1, vec1)" and r: "r \<noteq> 0" and
    rest: "push_all ps h1 vec1 = Inr (OK, h', vec')"
    by (simp split: sum.splits prod.splits if_splits)
  from push_back_ok [OF Cons.prems(1) pb r] have
    wf1: "wf_vector h1 vec1" and el1: "elements h1 vec1 = elements h vec @ [Some x]" and
    s1: "unat (size_v vec1) = unat (size_v vec) + 1"
    by blast+
  from Cons.IH [OF wf1 rest] el1 s1 p show ?case by simp
qed

lemma elements_length: "wf_vector h vec \<Longrightarrow> length (elements h vec) = unat (size_v vec)"
  by (auto simp: wf_vector_def elements_def word_le_nat_alt split: option.splits)

lemma replicate_numeral: "replicate (numeral k) x = x # replicate (pred_numeral k) x"
  by (simp add: numeral_eq_Suc)

subsection \<open>\<open>vector_insert\<close>\<close>

lemma shift_right_list:
  assumes "i < s" "s < length cs"
  shows "take (Suc s) ((take (Suc i) cs @ take (s - i) (drop i cs) @ drop (Suc s) cs)[i := y]) =
         take i (take s cs) @ [y] @ drop i (take s cs)"
proof -
  have "(take (Suc i) cs @ take (s - i) (drop i cs) @ drop (Suc s) cs)[i := y] =
        (take (Suc i) cs)[i := y] @ take (s - i) (drop i cs) @ drop (Suc s) cs"
    using assms by (simp add: list_update_append1)
  also have "(take (Suc i) cs)[i := y] = take i cs @ [y]"
  proof -
    have "i < length cs" using assms by simp
    then have "take (Suc i) cs = take i cs @ [cs ! i]" by (rule take_Suc_conv_app_nth)
    moreover have "length (take i cs) = i" using assms by simp
    ultimately show ?thesis by (simp add: list_update_append)
  qed
  finally have upd: "(take (Suc i) cs @ take (s - i) (drop i cs) @ drop (Suc s) cs)[i := y] =
      (take i cs @ [y]) @ take (s - i) (drop i cs) @ drop (Suc s) cs" .
  let ?A = "take i cs @ [y]" and ?B = "take (s - i) (drop i cs)"
  have "length ?A + length ?B = Suc s" using assms by simp
  then have "take (Suc s) (?A @ ?B @ drop (Suc s) cs) = ?A @ ?B"
    by (metis append.assoc append_eq_conv_conj length_append)
  moreover have "take i (take s cs) = take i cs" using assms by (simp add: min_def)
  moreover have "drop i (take s cs) = ?B" by (simp add: drop_take)
  ultimately show ?thesis by (simp only: upd append.assoc append_Cons append_Nil)
qed

lemma shift_left_list:
  assumes "l \<le> r" "r < s" "s \<le> length cs"
  shows "take (s - (r - l + 1)) (take l cs @ take (s - r - 1) (drop (r + 1) cs) @ drop (l + (s - r - 1)) cs) =
         take l (take s cs) @ drop (r + 1) (take s cs)"
proof -
  let ?k = "s - r - 1"
  let ?A = "take l cs" and ?B = "take ?k (drop (r + 1) cs)"
  have n: "s - (r - l + 1) = l + ?k" using assms by arith
  have la: "length ?A = l" and lb: "length ?B = ?k" using assms by simp_all
  have "take (l + ?k) (?A @ ?B @ drop (l + ?k) cs) = ?A @ ?B"
    using la lb by simp
  moreover have "take l (take s cs) = ?A" using assms by (simp add: min_def)
  moreover have "drop (r + 1) (take s cs) = ?B" by (simp add: drop_take)
  ultimately show ?thesis by (simp only: n)
qed

lemma unat_plus_one: "unat (x :: size_t) < 2 ^ 62 \<Longrightarrow> unat (x + 1) = unat x + 1"
  by (simp add: unat_word_ariths)

lemma cells_of_bytes_diff:
  assumes "(b :: size_t) \<le> a" "unat a < 2 ^ 62"
  shows "cells_of_bytes ((a - b) * sizeof_T) = unat a - unat b"
proof -
  have "unat (a - b) = unat a - unat b" using assms(1) by (rule unat_sub)
  moreover have "unat a - unat b < 2 ^ 62" using assms(2) by simp
  ultimately show ?thesis by (simp only: cells_of_bytes_times mod_less)
qed

lemma insert_ok:
  assumes wf: "wf_vector h vec" and idx: "index < size_v vec"
    and ins: "vector_insert ch h vec index x = Inr (OK, h', vec')"
  shows "size_v vec' = size_v vec + 1 \<and> unat (size_v vec') = unat (size_v vec) + 1 \<and>
         elements h' vec' =
           take (unat index) (elements h vec) @ [Some x] @ drop (unat index) (elements h vec) \<and>
         elements h' vec' ! unat index = Some x \<and>
         (\<forall>i. unat index \<le> i \<and> i < unat (size_v vec) \<longrightarrow>
              elements h' vec' ! (i + 1) = elements h vec ! i) \<and>
         (\<forall>i < unat index. elements h' vec' ! i = elements h vec ! i) \<and>
         wf_vector h' vec'"
proof -
  let ?s = "unat (size_v vec)" and ?i = "unat index"
  from idx have i: "?i < ?s" by (simp add: word_less_nat_alt)
  from wf_size_bound [OF wf] have s: "?s < 2 ^ 62" by simp
  from ins idx obtain r1 h1 vec1 h2 where
    g: "(if size_v vec = capacity vec
         then vector_reserve ch h vec (SCALING_FACTOR * size_v vec + 1)
         else Inr (OK, h, vec)) = Inr (r1, h1, vec1)" and r1: "r1 \<noteq> 0" and
    mv: "memmove h1 (contents vec1) (?i + 1) ?i ((size_v vec1 - index) * sizeof_T) = Inr h2" and
    st: "store h2 (contents vec1) ?i x = Inr h'" and
    v': "vec' = vec1\<lparr>size_v := size_v vec1 + 1\<rparr>"
    unfolding vector_insert_def
    by (simp split: sum.splits prod.splits if_splits)
  from room_step [OF wf g r1] obtain a cs1 where
    c1: "contents vec1 = Ptr a" and b1: "h1 a = Some cs1" and s1: "size_v vec1 = size_v vec" and
    room: "?s < length cs1 \<longrightarrow>
              take ?s cs1 = elements h vec \<and>
              length cs1 = unat (capacity vec1) \<and> unat (capacity vec1) < 2 ^ 62"
    by blast
  have k: "cells_of_bytes ((size_v vec1 - index) * sizeof_T) = ?s - ?i"
    using idx s s1 by (simp only: cells_of_bytes_diff [OF less_imp_le])
  let ?cs2 = "take (?i + 1) cs1 @ take (?s - ?i) (drop ?i cs1) @ drop (?i + 1 + (?s - ?i)) cs1"
  from memmove_Inr [OF mv] c1 b1 have "?i + 1 + (?s - ?i) \<le> length cs1" and
    h2: "h2 = h1(a \<mapsto> ?cs2)"
    by (auto simp only: k pointer.inject option.inject)
  with i have lt: "?s < length cs1" by simp
  from room lt have tk: "take ?s cs1 = elements h vec" and len: "length cs1 = unat (capacity vec1)"
    and cap: "unat (capacity vec1) < 2 ^ 62"
    by simp_all
  have l2: "length ?cs2 = length cs1" using i lt by simp
  from store_Inr [OF st] c1 h2 have h': "h' = h2(a \<mapsto> ?cs2[?i := Some x])" by auto
  have us: "unat (size_v vec + 1) = ?s + 1" using s by (rule unat_plus_one)
  have buf: "buffer h' vec' = Some (?cs2[?i := Some x])"
    using v' c1 h' by (simp add: buffer_def)
  have "elements h' vec' = take (Suc ?s) (?cs2[?i := Some x])"
    using buf v' s1 us by (simp add: elements_def)
  also have "?cs2 = take (Suc ?i) cs1 @ take (?s - ?i) (drop ?i cs1) @ drop (Suc ?s) cs1"
    using i by simp
  also have "take (Suc ?s) (\<dots>[?i := Some x]) = take ?i (take ?s cs1) @ [Some x] @ drop ?i (take ?s cs1)"
    using i lt by (rule shift_right_list)
  finally have el: "elements h' vec' = take ?i (elements h vec) @ [Some x] @ drop ?i (elements h vec)"
    using tk by simp
  have ln: "length (elements h vec) = ?s" by (rule elements_length [OF wf])
  have wf': "wf_vector h' vec'"
    using buf v' s1 us lt len cap l2 by (simp add: wf_vector_def word_le_nat_alt)
  have at: "elements h' vec' ! ?i = Some x"
    using el i ln by (simp add: nth_append)
  have after: "\<forall>j. ?i \<le> j \<and> j < ?s \<longrightarrow> elements h' vec' ! (j + 1) = elements h vec ! j"
    using el i ln by (auto simp: nth_append min_def)
  have before: "\<forall>j < ?i. elements h' vec' ! j = elements h vec ! j"
    using el i ln by (simp add: nth_append)
  from v' s1 us el at after before wf' show ?thesis by simp
qed

subsection \<open>\<open>vector_erase_range\<close>\<close>

lemma memmove_ok:
  assumes "h a = Some cs" "src + cells_of_bytes n \<le> length cs" "dst + cells_of_bytes n \<le> length cs"
  shows "memmove h (Ptr a) dst src n =
         Inr (h(a \<mapsto> take dst cs @ take (cells_of_bytes n) (drop src cs) @ drop (dst + cells_of_bytes n) cs))"
  using assms by (simp add: memmove_def with_block_def Let_def)

lemma erase_range_ok:
  assumes wf: "wf_vector h vec"
  shows "(l \<le> r \<and> r < size_v vec \<longrightarrow>
            (\<exists>h'. vector_erase_range h vec l r =
                     Inr (OK, h', vec\<lparr>size_v := size_v vec - (r - l + 1)\<rparr>) \<and>
                   unat (size_v vec - (r - l + 1)) = unat (size_v vec) - (unat r - unat l + 1) \<and>
                   elements h' (vec\<lparr>size_v := size_v vec - (r - l + 1)\<rparr>) =
                     take (unat l) (elements h vec) @ drop (unat r + 1) (elements h vec) \<and>
                   wf_vector h' (vec\<lparr>size_v := size_v vec - (r - l + 1)\<rparr>))) \<and>
         (\<not> (l \<le> r \<and> r < size_v vec) \<longrightarrow> vector_erase_range h vec l r = Inr (BAD_ALLOC, h, vec))"
proof (intro conjI impI)
  assume "\<not> (l \<le> r \<and> r < size_v vec)"
  then show "vector_erase_range h vec l r = Inr (BAD_ALLOC, h, vec)"
    by (auto simp: vector_erase_range_def not_le not_less)
next
  assume ok: "l \<le> r \<and> r < size_v vec"
  let ?s = "unat (size_v vec)" and ?l = "unat l" and ?r = "unat r"
  let ?vec' = "vec\<lparr>size_v := size_v vec - (r - l + 1)\<rparr>"
  from ok have lr: "?l \<le> ?r" and rs: "?r < ?s"
    by (simp_all add: word_le_nat_alt word_less_nat_alt)
  from wf_size_bound [OF wf] have s: "?s < 2 ^ 62" and sc: "?s \<le> unat (capacity vec)" by simp_all
  from rs sc have "capacity vec \<noteq> 0" by (auto simp: unat_eq_0)
  from wf_live [OF wf this] obtain a cs where
    c: "contents vec = Ptr a" and b: "h a = Some cs" and len: "length cs = unat (capacity vec)"
    by auto
  have usr: "unat (size_v vec - r) = ?s - ?r"
    using ok by (intro unat_sub) auto
  have one: "(1 :: size_t) \<le> size_v vec - r"
    using usr rs by (simp add: word_le_nat_alt)
  have k: "cells_of_bytes ((size_v vec - r - 1) * sizeof_T) = ?s - ?r - 1"
    using cells_of_bytes_diff [OF one] usr s by simp
  have url: "unat (r - l) = ?r - ?l"
    using ok by (intro unat_sub) simp
  have url1: "unat (r - l + 1) = ?r - ?l + 1"
    using url rs s by (intro trans [OF unat_plus_one]) simp_all
  have le: "r - l + 1 \<le> size_v vec"
    using url1 lr rs by (simp add: word_le_nat_alt)
  have us': "unat (size_v vec - (r - l + 1)) = ?s - (?r - ?l + 1)"
    using url1 unat_sub [OF le] by simp
  let ?cs' = "take ?l cs @ take (?s - ?r - 1) (drop (?r + 1) cs) @ drop (?l + (?s - ?r - 1)) cs"
  have mv: "memmove h (contents vec) ?l (?r + 1) ((size_v vec - r - 1) * sizeof_T) = Inr (h(a \<mapsto> ?cs'))"
  proof -
    have src: "?r + 1 + cells_of_bytes ((size_v vec - r - 1) * sizeof_T) \<le> length cs"
      unfolding k using rs sc len by simp
    have dst: "?l + cells_of_bytes ((size_v vec - r - 1) * sizeof_T) \<le> length cs"
      unfolding k using lr rs sc len by simp
    from memmove_ok [of h a cs "?r + 1" "(size_v vec - r - 1) * sizeof_T" ?l, OF b src dst]
    show ?thesis
      unfolding k c .
  qed
  have run: "vector_erase_range h vec l r = Inr (OK, h(a \<mapsto> ?cs'), ?vec')"
    using ok mv by (simp add: vector_erase_range_def not_le [symmetric])
  have l': "length ?cs' = length cs"
    using lr rs sc len by simp
  have buf: "buffer (h(a \<mapsto> ?cs')) ?vec' = Some ?cs'"
    using c by (simp add: buffer_def)
  have old: "elements h vec = take ?s cs"
    using c b by (simp add: elements_def buffer_def)
  have "elements (h(a \<mapsto> ?cs')) ?vec' = take (?s - (?r - ?l + 1)) ?cs'"
    using buf us' by (simp add: elements_def)
  also have "\<dots> = take ?l (take ?s cs) @ drop (?r + 1) (take ?s cs)"
    using lr rs sc len by (intro shift_left_list) simp_all
  finally have el: "elements (h(a \<mapsto> ?cs')) ?vec' =
      take ?l (elements h vec) @ drop (?r + 1) (elements h vec)"
    using old by simp
  have wf': "wf_vector (h(a \<mapsto> ?cs')) ?vec'"
    using wf buf l' len us' sc by (simp add: wf_vector_def word_le_nat_alt)
  from run us' el wf' show
    "\<exists>h'. vector_erase_range h vec l r = Inr (OK, h', ?vec') \<and>
        unat (size_v vec - (r - l + 1)) = ?s - (?r - ?l + 1) \<and>
        elements h' ?vec' = take ?l (elements h vec) @ drop (?r + 1) (elements h vec) \<and>
        wf_vector h' ?vec'"
    by blast
qed

text \<open>
  Claim C7. On a well formed vector \<open>vector_erase_range\<close> returns \<open>OK\<close> exactly when
  \<open>l \<le> r\<close> and \<open>r < size\<close>. Then the size drops by \<open>r - l + 1\<close>, the elements before
  \<open>l\<close> stay and those after \<open>r\<close> follow them in their order. Otherwise it returns
  \<open>BAD_ALLOC\<close> and changes nothing.
\<close>

theorem erase_range_spec:
  assumes wf: "wf_vector h vec"
  shows "(l \<le> r \<and> r < size_v vec \<longrightarrow>
            (\<exists>h'. vector_erase_range h vec l r =
                     Inr (OK, h', vec\<lparr>size_v := size_v vec - (r - l + 1)\<rparr>) \<and>
                   unat (size_v vec - (r - l + 1)) = unat (size_v vec) - (unat r - unat l + 1) \<and>
                   elements h' (vec\<lparr>size_v := size_v vec - (r - l + 1)\<rparr>) =
                     take (unat l) (elements h vec) @ drop (unat r + 1) (elements h vec) \<and>
                   wf_vector h' (vec\<lparr>size_v := size_v vec - (r - l + 1)\<rparr>))) \<and>
         (\<not> (l \<le> r \<and> r < size_v vec) \<longrightarrow> vector_erase_range h vec l r = Inr (BAD_ALLOC, h, vec))"
  using wf by (rule erase_range_ok)

theorem erase_range_spec_witness:
  "wf_vector heap_three vec_three \<and> (0 :: size_t) \<le> 1 \<and> (1 :: size_t) < size_v vec_three \<and>
   vector_erase_range heap_three vec_three 0 1 = Inr (OK, heap_erased, vec_erased) \<and>
   elements heap_three vec_three = [Some 10, Some 20, Some 30] \<and>
   elements heap_erased vec_erased = [Some 30] \<and>
   vector_erase_range heap_three vec_three 2 1 = Inr (BAD_ALLOC, heap_three, vec_three) \<and>
   vector_erase_range heap_three vec_three 0 3 = Inr (BAD_ALLOC, heap_three, vec_three)"
proof -
  have wf: "wf_vector heap_three vec_three"
    by (simp add: wf_vector_def buffer_def vec_three_def heap_three_def)
  have idx: "(1 :: size_t) < size_v vec_three"
    by (simp add: vec_three_def word_less_nat_alt)
  have run: "vector_erase_range heap_three vec_three 0 1 = Inr (OK, heap_erased, vec_erased)"
    by (simp add: vector_erase_range_def memmove_def with_block_def heap0_def heap_three_def
        vec_three_def heap_erased_def vec_erased_def cells_of_bytes_def word_le_nat_alt
        word_less_nat_alt)
  have bad1: "\<not> ((2 :: size_t) \<le> 1 \<and> (1 :: size_t) < size_v vec_three)"
    by (simp add: word_le_nat_alt)
  have bad2: "\<not> ((0 :: size_t) \<le> 3 \<and> (3 :: size_t) < size_v vec_three)"
    by (simp add: vec_three_def)
  have el: "elements heap_three vec_three = [Some 10, Some 20, Some 30]"
    "elements heap_erased vec_erased = [Some 30]"
    by (simp_all add: elements_def buffer_def vec_three_def heap_three_def heap_erased_def
        vec_erased_def)
  from erase_range_spec [OF wf, of 2 1] bad1
  have b1: "vector_erase_range heap_three vec_three 2 1 = Inr (BAD_ALLOC, heap_three, vec_three)"
    by blast
  from erase_range_spec [OF wf, of 0 3] bad2
  have b2: "vector_erase_range heap_three vec_three 0 3 = Inr (BAD_ALLOC, heap_three, vec_three)"
    by blast
  from erase_range_spec [OF wf, of 0 1] wf idx run el b1 b2 show ?thesis by simp
qed

subsection \<open>\<open>vector_reserve\<close>\<close>

lemma pointee_buffer:
  assumes "wf_vector h vec" "pointee h (contents vec) = Inr cs"
  shows "length cs = unat (capacity vec) \<and> elements h vec = take (unat (size_v vec)) cs \<and>
         (contents vec = NULL \<or> buffer h vec = Some cs)"
  using assms
  by (cases "contents vec") (auto simp: wf_vector_def buffer_def elements_def split: option.splits)

lemma reserve_wf:
  assumes wf: "wf_vector h vec" and fit: "unat count < 2 ^ 62"
    and res: "vector_reserve ch h vec count = Inr (r, h', vec')"
  shows "wf_vector h' vec' \<and> size_v vec' = size_v vec \<and> elements h' vec' = elements h vec \<and>
         (r = OK \<and> (if count \<le> capacity vec then h' = h \<and> vec' = vec else capacity vec' = count) \<or>
          r = BAD_ALLOC \<and> capacity vec < count \<and> h' = h \<and> vec' = vec)"
proof (cases "count \<le> capacity vec")
  case True
  with res wf show ?thesis by (simp add: vector_reserve_def)
next
  case False
  then have lt: "capacity vec < count" by simp
  then have c0: "count \<noteq> 0" by auto
  have cells: "cells_of_bytes (count * sizeof_T) = unat count"
    using fit by (rule cells_of_bytes_small)
  show ?thesis
  proof (cases "r = 0")
    case True
    have "count * sizeof_T \<noteq> 0"
      using cells c0 by (auto simp: cells_of_bytes_def unat_eq_0)
    with reserve_refused [OF res True] True lt wf show ?thesis by auto
  next
    case nz: False
    from reserve_grown [OF res False nz] obtain a cs where
      ok: "r = OK" and cs: "pointee h (contents vec) = Inr cs" and
      v': "vec' = vec\<lparr>contents := Ptr a, capacity := count\<rparr>" and
      h': "h' = (release h (contents vec))(a \<mapsto> resize_block (unat count) cs)"
      unfolding cells by auto
    from pointee_buffer [OF wf cs] have len: "length cs = unat (capacity vec)"
      and el: "elements h vec = take (unat (size_v vec)) cs" by simp_all
    from wf_size_bound [OF wf] have sc: "unat (size_v vec) \<le> unat (capacity vec)" by simp
    from lt have cc: "unat (capacity vec) < unat count" by (simp add: word_less_nat_alt)
    have buf: "buffer h' vec' = Some (resize_block (unat count) cs)"
      using v' h' by (simp add: buffer_def)
    have "take (unat (size_v vec)) (resize_block (unat count) cs) = take (unat (size_v vec)) cs"
      using len sc cc by (simp add: resize_block_def min_def)
    then have el': "elements h' vec' = elements h vec"
      using buf v' el by (simp add: elements_def)
    have "wf_vector h' vec'"
      using buf v' fit sc cc by (simp add: wf_vector_def word_le_nat_alt)
    with ok v' el' False show ?thesis by simp
  qed
qed

subsection \<open>Well-formedness is preserved\<close>

lemma guard_refused:
  assumes wf: "wf_vector h vec"
    and g: "(if size_v vec = capacity vec
             then vector_reserve ch h vec (SCALING_FACTOR * size_v vec + 1)
             else Inr (OK, h, vec)) = Inr (r, h1, vec1)"
    and r: "r = 0"
  shows "h1 = h \<and> vec1 = vec"
proof -
  let ?count = "SCALING_FACTOR * size_v vec + 1"
  from g r have res: "vector_reserve ch h vec ?count = Inr (0, h1, vec1)"
    by (simp split: if_splits)
  from wf_size_bound [OF wf] have "unat (size_v vec) < 2 ^ 62" by simp
  then have "unat ?count = 2 * unat (size_v vec) + 1" by (rule unat_double_plus1)
  then have "cells_of_bytes (?count * sizeof_T) \<noteq> 0"
    by (simp only: cells_of_bytes_times odd_mod_nonzero not_False_eq_True)
  then have "?count * sizeof_T \<noteq> 0"
    by (auto simp: cells_of_bytes_def)
  with reserve_refused [OF res] show ?thesis by auto
qed

lemma insert_wf:
  assumes wf: "wf_vector h vec" and ins: "vector_insert ch h vec index x = Inr (r, h', vec')"
  shows "wf_vector h' vec'"
proof (cases "index < size_v vec")
  case False
  with ins wf show ?thesis by (simp add: vector_insert_def not_less)
next
  case True
  from ins True obtain r1 h1 vec1 where
    g: "(if size_v vec = capacity vec
         then vector_reserve ch h vec (SCALING_FACTOR * size_v vec + 1)
         else Inr (OK, h, vec)) = Inr (r1, h1, vec1)" and
    alt: "r1 = 0 \<and> h' = h1 \<and> vec' = vec1 \<or> r = OK"
    unfolding vector_insert_def
    by (simp split: sum.splits prod.splits if_splits)
  show ?thesis
  proof (cases "r1 = 0")
    case True
    with alt ins have "h' = h1 \<and> vec' = vec1"
      using g unfolding vector_insert_def by (auto split: sum.splits prod.splits if_splits)
    with guard_refused [OF wf g True] wf show ?thesis by simp
  next
    case False
    with alt have "r = OK" by simp
    with insert_ok [OF wf True] ins show ?thesis by blast
  qed
qed

lemma erase_range_wf:
  assumes wf: "wf_vector h vec" and er: "vector_erase_range h vec l r = Inr (c, h', vec')"
  shows "wf_vector h' vec'"
proof (cases "l \<le> r \<and> r < size_v vec")
  case True
  with erase_range_ok [OF wf, of l r] er show ?thesis by auto
next
  case False
  with erase_range_ok [OF wf, of l r] er wf show ?thesis by auto
qed

lemma clear_wf:
  assumes "vector_clear h vec = Inr (h', vec')"
  shows "wf_vector h' vec' \<and> size_v vec' = 0 \<and> capacity vec' = 0 \<and> buffer h' vec' = None"
  using assms
  by (auto simp: vector_clear_def free_def wf_vector_def buffer_def
      split: sum.splits pointer.splits option.splits)

lemma pop_back_wf:
  assumes wf: "wf_vector h vec" and pb: "vector_pop_back vec = (c, vec')"
  shows "wf_vector h vec'"
proof (cases "size_v vec = 0")
  case True
  with pb wf show ?thesis by (simp add: vector_pop_back_def)
next
  case False
  then have "size_v vec - 1 \<le> size_v vec"
    by (simp add: word_le_nat_alt unat_minus_one)
  with wf have "size_v vec - 1 \<le> capacity vec" by (auto simp: wf_vector_def)
  moreover from pb False have v': "vec' = vec\<lparr>size_v := size_v vec - 1\<rparr>"
    by (simp add: vector_pop_back_def)
  then have "buffer h vec' = buffer h vec" "capacity vec' = capacity vec"
    "size_v vec' = size_v vec - 1"
    by (simp_all add: buffer_def)
  ultimately show ?thesis using wf by (simp add: wf_vector_def split: option.splits)
qed

lemma resize_wf:
  assumes wf: "wf_vector h vec" and fit: "unat count < 2 ^ 62"
    and rs: "vector_resize ch h vec count = Inr (r, h', vec')"
  shows "wf_vector h' vec' \<and>
         (r = BAD_ALLOC \<and> h' = h \<and> vec' = vec \<or>
          r = OK \<and> count \<le> size_v vec \<and> size_v vec' = count \<and> capacity vec' = count \<and>
          elements h' vec' = take (unat count) (elements h vec))"
proof (cases "r = OK")
  case False
  from rs False obtain ptr where
    re: "realloc ch h (contents vec) (count * sizeof_T) = Inr (h', ptr)" and
    bad: "ptr = NULL" "count \<noteq> 0" "r = BAD_ALLOC" "vec' = vec"
    unfolding vector_resize_def
    by (auto split: sum.splits prod.splits if_splits)
  have "cells_of_bytes (count * sizeof_T) = unat count"
    using fit by (rule cells_of_bytes_small)
  with bad have "count * sizeof_T \<noteq> 0"
    by (auto simp: cells_of_bytes_def unat_eq_0)
  with realloc_Inr [OF re] bad have "h' = h" by auto
  with bad wf show ?thesis by simp
next
  case True
  with rs resize_grow_never_ok [of vec count ch h h' vec'] have le: "count \<le> size_v vec"
    by (auto simp: not_less [symmetric])
  then have nlt: "\<not> size_v vec < count" by simp
  from rs True nlt obtain ptr where
    re: "realloc ch h (contents vec) (count * sizeof_T) = Inr (h', ptr)" and
    nb: "\<not> (ptr = NULL \<and> count \<noteq> 0)" and
    v': "vec' = vec\<lparr>contents := ptr, size_v := count, capacity := count\<rparr>"
    unfolding vector_resize_def
    by (auto split: sum.splits prod.splits if_splits)
  have cells: "cells_of_bytes (count * sizeof_T) = unat count"
    using fit by (rule cells_of_bytes_small)
  from le have cs: "unat count \<le> unat (size_v vec)" by (simp add: word_le_nat_alt)
  show ?thesis
  proof (cases ptr)
    case NULL
    with nb have "count = 0" by simp
    with v' NULL True le show ?thesis
      by (simp add: wf_vector_def buffer_def elements_def)
  next
    case (Ptr a)
    with realloc_Inr [OF re] obtain cs where
      p: "pointee h (contents vec) = Inr cs" and
      h': "h' = (release h (contents vec))(a \<mapsto> resize_block (unat count) cs)"
      unfolding cells by auto
    from pointee_buffer [OF wf p] have len: "length cs = unat (capacity vec)"
      and el: "elements h vec = take (unat (size_v vec)) cs" by simp_all
    from wf_size_bound [OF wf] have sc: "unat (size_v vec) \<le> unat (capacity vec)" by simp
    have buf: "buffer h' vec' = Some (resize_block (unat count) cs)"
      using v' h' Ptr by (simp add: buffer_def)
    have rb: "resize_block (unat count) cs = take (unat count) cs"
      using len sc cs by (simp add: resize_block_def)
    have el': "elements h' vec' = take (unat count) (elements h vec)"
      using buf v' el rb cs by (simp add: elements_def min_def)
    have "wf_vector h' vec'"
      using buf v' fit by (simp add: wf_vector_def)
    with True le v' el' show ?thesis by simp
  qed
qed

lemma assign_loop_Inr:
  "assign_loop h p i n x = Inr h' \<Longrightarrow>
     (n \<le> i \<and> h' = h) \<or>
     (\<exists>a cs. i < n \<and> p = Ptr a \<and> h a = Some cs \<and> n \<le> length cs \<and>
        h' = h(a \<mapsto> take i cs @ replicate (n - i) (Some x) @ drop n cs))"
proof (induction h p i n x arbitrary: h' rule: assign_loop.induct)
  case (1 h p i n x)
  from "1.prems" have step:
    "(if i < n
      then (case store h p i x of Inl e \<Rightarrow> Inl e | Inr h1 \<Rightarrow> assign_loop h1 p (Suc i) n x)
      else Inr h) = Inr h'"
    by (simp only: assign_loop.simps [of h p i n x])
  show ?case
  proof (cases "i < n")
    case False
    with step show ?thesis by simp
  next
    case True
    with step obtain h1 where st: "store h p i x = Inr h1"
      and loop: "assign_loop h1 p (Suc i) n x = Inr h'"
      by (simp split: sum.splits)
    from store_Inr [OF st] obtain a cs where
      p: "p = Ptr a" and b: "h a = Some cs" and il: "i < length cs" and
      h1: "h1 = h(a \<mapsto> cs[i := Some x])" by auto
    from "1.IH" [OF True st loop]
    show ?thesis
    proof
      assume "n \<le> Suc i \<and> h' = h1"
      with True have n: "n = Suc i" and "h' = h1" by simp_all
      with h1 il have "h' = h(a \<mapsto> take i cs @ replicate (n - i) (Some x) @ drop n cs)"
        by (simp add: upd_conv_take_nth_drop)
      with True p b il n show ?thesis by simp
    next
      assume "\<exists>a cs. Suc i < n \<and> p = Ptr a \<and> h1 a = Some cs \<and> n \<le> length cs \<and>
        h' = h1(a \<mapsto> take (Suc i) cs @ replicate (n - Suc i) (Some x) @ drop n cs)"
      with p h1 have lt: "Suc i < n" and nl: "n \<le> length cs" and
        h': "h' = h(a \<mapsto> take (Suc i) (cs[i := Some x]) @ replicate (n - Suc i) (Some x) @ drop n (cs[i := Some x]))"
        by auto
      have tk: "take (Suc i) (cs[i := Some x]) = take i cs @ [Some x]"
        using il by (simp add: take_Suc_conv_app_nth)
      have dr: "drop n (cs[i := Some x]) = drop n cs"
        using lt by simp
      have "n - i = Suc (n - Suc i)" using lt by simp
      then have rep: "replicate (n - i) (Some x) = Some x # replicate (n - Suc i) (Some x)"
        by simp
      have "h' = h(a \<mapsto> take i cs @ replicate (n - i) (Some x) @ drop n cs)"
        unfolding h' tk dr rep by simp
      with True p b nl show ?thesis by simp
    qed
  qed
qed

lemma assign_wf:
  assumes wf: "wf_vector h vec" and fit: "unat count < 2 ^ 62"
    and asg: "vector_assign ch h vec count x = Inr (r, h', vec')"
  shows "wf_vector h' vec' \<and>
         (r = BAD_ALLOC \<and> h' = h \<and> vec' = vec \<or>
          r = OK \<and> count \<le> size_v vec \<and> size_v vec' = count \<and> capacity vec' = count \<and>
          elements h' vec' = replicate (unat count) (Some x))"
proof -
  from asg obtain r1 h1 where
    rs: "vector_resize ch h vec count = Inr (r1, h1, vec')" and
    alt: "r1 = 0 \<and> r = BAD_ALLOC \<and> h' = h1 \<or>
          r1 \<noteq> 0 \<and> r = OK \<and> assign_loop h1 (contents vec') 0 (unat count) x = Inr h'"
    unfolding vector_assign_def
    by (auto split: sum.splits prod.splits if_splits)
  from resize_wf [OF wf fit rs] have wf1: "wf_vector h1 vec'" and
    cases1: "r1 = BAD_ALLOC \<and> h1 = h \<and> vec' = vec \<or>
          r1 = OK \<and> count \<le> size_v vec \<and> size_v vec' = count \<and> capacity vec' = count"
    by auto
  show ?thesis
  proof (cases "r1 = 0")
    case True
    with alt cases1 wf show ?thesis by auto
  next
    case False
    with alt cases1 have ok: "r = OK" "count \<le> size_v vec" "size_v vec' = count"
      "capacity vec' = count" and
      loop: "assign_loop h1 (contents vec') 0 (unat count) x = Inr h'"
      by auto
    from assign_loop_Inr [OF loop]
    have "wf_vector h' vec' \<and> elements h' vec' = replicate (unat count) (Some x)"
    proof
      assume "unat count \<le> 0 \<and> h' = h1"
      with wf1 ok show ?thesis
        by (simp add: elements_def split: option.splits)
    next
      assume "\<exists>a cs. 0 < unat count \<and> contents vec' = Ptr a \<and> h1 a = Some cs \<and>
          unat count \<le> length cs \<and>
          h' = h1(a \<mapsto> take 0 cs @ replicate (unat count - 0) (Some x) @ drop (unat count) cs)"
      then obtain a cs where c: "contents vec' = Ptr a" and b: "h1 a = Some cs" and
        h': "h' = h1(a \<mapsto> replicate (unat count) (Some x) @ drop (unat count) cs)"
        by auto
      from wf1 c b ok have "length cs = unat count"
        by (simp add: wf_vector_def buffer_def)
      with h' have "h' = h1(a \<mapsto> replicate (unat count) (Some x))" by simp
      with c ok fit show ?thesis
        by (simp add: wf_vector_def buffer_def elements_def)
    qed
    with ok show ?thesis by simp
  qed
qed

lemma returned_Inr:
  "returned x = Inr (r, h', vec') \<Longrightarrow> \<exists>c. x = Inr (c, h', vec') \<and> r = Some c"
  by (auto simp: returned_def split: sum.splits)

lemma exec_wf:
  assumes wf: "wf_vector h vec" and fit: "counts_fit op"
    and ex: "exec ch op h vec = Inr (r, h', vec')"
  shows "wf_vector h' vec'"
proof (cases op)
  case Init
  let ?v = "vec\<lparr>contents := NULL, size_v := 0, capacity := 0\<rparr>"
  have wf0: "wf_vector h ?v" by (simp add: wf_vector_def buffer_def)
  from ex Init obtain c where "vector_reserve ch h ?v INIT_CAPACITY = Inr (c, h', vec')"
    by (auto simp: vector_init_def dest: returned_Inr)
  with reserve_wf [OF wf0, of INIT_CAPACITY] show ?thesis by simp
next
  case Clear
  with ex have "vector_clear h vec = Inr (h', vec')"
    by (simp split: sum.splits prod.splits)
  then show ?thesis by (simp add: clear_wf)
next
  case (Reserve count)
  with ex obtain c where "vector_reserve ch h vec count = Inr (c, h', vec')"
    by (auto dest: returned_Inr)
  with reserve_wf [OF wf, of count] fit Reserve show ?thesis by simp
next
  case (Resize count)
  with ex obtain c where "vector_resize ch h vec count = Inr (c, h', vec')"
    by (auto dest: returned_Inr)
  with resize_wf [OF wf, of count] fit Resize show ?thesis by simp
next
  case (Assign count x)
  with ex obtain c where "vector_assign ch h vec count x = Inr (c, h', vec')"
    by (auto dest: returned_Inr)
  with assign_wf [OF wf, of count] fit Assign show ?thesis by simp
next
  case (Push_back x)
  with ex obtain c where pb: "vector_push_back ch h vec x = Inr (c, h', vec')"
    by (auto dest: returned_Inr)
  show ?thesis
  proof (cases "c = 0")
    case True
    from push_back_refused [OF wf pb True] wf show ?thesis by simp
  next
    case False
    from push_back_ok [OF wf pb False] show ?thesis by simp
  qed
next
  case Pop_back
  with ex obtain c where "vector_pop_back vec = (c, vec')" and "h' = h"
    by (auto split: prod.splits)
  with pop_back_wf [OF wf] show ?thesis by simp
next
  case (Insert index x)
  with ex obtain c where "vector_insert ch h vec index x = Inr (c, h', vec')"
    by (auto dest: returned_Inr)
  with insert_wf [OF wf] show ?thesis by simp
next
  case (Erase_range l u)
  with ex obtain c where "vector_erase_range h vec l u = Inr (c, h', vec')"
    by (auto dest: returned_Inr)
  with erase_range_wf [OF wf] show ?thesis by simp
next
  case (Erase index)
  with ex obtain c where "vector_erase_range h vec index index = Inr (c, h', vec')"
    by (auto simp: vector_erase_def dest: returned_Inr)
  with erase_range_wf [OF wf] show ?thesis by simp
qed

text \<open>
  Claim C6, amended. Every operation that returns, called on a well formed vector with a
  count whose byte count does not wrap (\<open>count < 2 ^ 62\<close>), leaves a well formed vector:
  \<open>size \<le> capacity\<close>, a null or freed \<open>contents\<close> only with capacity 0, and with a
  capacity other than 0 a live buffer of exactly that many elements.
\<close>

theorem operations_preserve_wf:
  assumes "wf_vector h vec" "counts_fit op" "exec ch op h vec = Inr (r, h', vec')"
  shows "wf_vector h' vec' \<and> size_v vec' \<le> capacity vec' \<and>
         (buffer h' vec' = None \<longrightarrow> capacity vec' = 0) \<and>
         (capacity vec' \<noteq> 0 \<longrightarrow>
            (\<exists>cs. buffer h' vec' = Some cs \<and> length cs = unat (capacity vec')))"
proof -
  from assms have "wf_vector h' vec'" by (rule exec_wf)
  then show ?thesis by (auto simp: wf_vector_def split: option.splits)
qed

text \<open>
  Claim C6 as stated fails in both directions of its equivalence. A resize to 0 of the
  empty vector, answered by the allocator with a block of no bytes, leaves capacity 0
  with a live allocation. A reservation of \<open>2 ^ 62\<close> elements asks for 0 bytes; an
  allocator that frees the block and returns null leaves capacity 3 with no buffer.
\<close>

theorem invariant_counterexample:
  "spec_invariant heap0 vec0 \<and>
   exec (Grant 1) (Resize 0) heap0 vec0 = Inr (Some OK, heap_empty_block, vec_empty_block) \<and>
   capacity vec_empty_block = 0 \<and> buffer heap_empty_block vec_empty_block = Some [] \<and>
   \<not> spec_invariant heap_empty_block vec_empty_block \<and>
   spec_invariant heap_three vec_three \<and>
   exec Release (Reserve 4611686018427387904) heap_three vec_three =
     Inr (Some BAD_ALLOC, heap0, vec_three) \<and>
   capacity vec_three = 3 \<and> buffer heap0 vec_three = None \<and>
   \<not> spec_invariant heap0 vec_three"
  by (simp add: spec_invariant_def buffer_def returned_def vector_resize_def vector_reserve_def
      realloc_def heap0_def vec0_def heap_three_def vec_three_def heap_empty_block_def
      vec_empty_block_def cells_of_bytes_def resize_block_def word_le_nat_alt)

theorem operations_preserve_wf_witness:
  "wf_vector heap0 vec0 \<and> counts_fit (Push_back 10) \<and>
   exec (Grant 1) (Push_back 10) heap0 vec0 = Inr (Some OK, heap_one, vec_one) \<and>
   wf_vector heap_one vec_one \<and> size_v vec_one \<le> capacity vec_one \<and>
   buffer heap_one vec_one = Some [Some 10] \<and> capacity vec_one \<noteq> 0 \<and>
   wf_vector heap_three vec_three \<and> counts_fit (Resize 2) \<and>
   exec (Grant 1) (Resize 2) heap_three vec_three =
     Inr (Some OK, heap0(1 \<mapsto> [Some 10, Some 20]), \<lparr>contents = Ptr 1, size_v = 2, capacity = 2\<rparr>) \<and>
   wf_vector (heap0(1 \<mapsto> [Some 10, Some 20])) \<lparr>contents = Ptr 1, size_v = 2, capacity = 2\<rparr>"
proof -
  have wf: "wf_vector heap0 vec0"
    by (simp add: wf_vector_def buffer_def vec0_def)
  have wf3: "wf_vector heap_three vec_three"
    by (simp add: wf_vector_def buffer_def vec_three_def heap_three_def)
  have ex: "exec (Grant 1) (Push_back 10) heap0 vec0 = Inr (Some OK, heap_one, vec_one)"
    by (simp add: returned_def vector_push_back_def vector_reserve_def realloc_def store_def
        with_block_def heap0_def vec0_def heap_one_def vec_one_def cells_of_bytes_def
        resize_block_def)
  have ex3: "exec (Grant 1) (Resize 2) heap_three vec_three =
     Inr (Some OK, heap0(1 \<mapsto> [Some 10, Some 20]), \<lparr>contents = Ptr 1, size_v = 2, capacity = 2\<rparr>)"
    by (simp add: returned_def vector_resize_def realloc_def heap0_def heap_three_def
        vec_three_def cells_of_bytes_def resize_block_def word_less_nat_alt)
  have b: "buffer heap_one vec_one = Some [Some 10]" "capacity vec_one \<noteq> 0"
    by (simp_all add: buffer_def heap_one_def vec_one_def)
  from operations_preserve_wf [OF wf _ ex] operations_preserve_wf [OF wf3 _ ex3] wf wf3 ex ex3 b
  show ?thesis by simp
qed

subsection \<open>When the operations return\<close>

text \<open>
  The properties above are about calls that return. These lemmas show that the calls do
  return on a well formed vector: with spare capacity always, and on a full vector when
  the allocator grants the request and \<open>2 * size + 1\<close> elements fit into \<open>size_t\<close> bytes.
\<close>

lemma store_ok:
  assumes "h a = Some cs" "off < length cs"
  shows "store h (Ptr a) off x = Inr (h(a \<mapsto> cs[off := Some x]))"
  using assms by (simp add: store_def with_block_def)

lemma push_back_spare:
  assumes wf: "wf_vector h vec" and spare: "size_v vec < capacity vec"
  shows "\<exists>h'. vector_push_back ch h vec x = Inr (OK, h', vec\<lparr>size_v := size_v vec + 1\<rparr>)"
proof -
  from spare have ne: "size_v vec \<noteq> capacity vec" and c0: "capacity vec \<noteq> 0" by auto
  from wf_live [OF wf c0] obtain a cs where
    c: "contents vec = Ptr a" and b: "h a = Some cs" and len: "length cs = unat (capacity vec)"
    by auto
  from spare len have "unat (size_v vec) < length cs" by (simp add: word_less_nat_alt)
  from store_ok [of h a cs "unat (size_v vec)" x, OF b this] ne c show ?thesis
    by (simp add: vector_push_back_def)
qed

lemma realloc_granted:
  assumes "pointee h p = Inr cs" "p = Ptr a \<or> h a = None"
  shows "realloc (Grant a) h p n =
         Inr ((release h p)(a \<mapsto> resize_block (cells_of_bytes n) cs), Ptr a)"
  using assms by (auto simp: realloc_def)

lemma reserve_granted:
  assumes "\<not> count \<le> capacity vec"
    "realloc ch h (contents vec) (count * sizeof_T) = Inr (h', Ptr a)"
  shows "vector_reserve ch h vec count = Inr (OK, h', vec\<lparr>contents := Ptr a, capacity := count\<rparr>)"
  using assms by (simp add: vector_reserve_def)

lemma push_back_granted:
  assumes wf: "wf_vector h vec" and full: "size_v vec = capacity vec"
    and small: "unat (size_v vec) < 2 ^ 61"
    and valid: "pointee h (contents vec) = Inr cs"
    and usable: "contents vec = Ptr a \<or> h a = None"
  shows "\<exists>h'. vector_push_back (Grant a) h vec x =
           Inr (OK, h', vec\<lparr>contents := Ptr a, capacity := SCALING_FACTOR * size_v vec + 1,
                             size_v := size_v vec + 1\<rparr>)"
proof -
  let ?s = "unat (size_v vec)"
  let ?count = "SCALING_FACTOR * size_v vec + 1"
  from small have s: "?s < 2 ^ 62" by simp
  then have uc: "unat ?count = 2 * ?s + 1" by (rule unat_double_plus1)
  with small have fit: "unat ?count < 2 ^ 62" by simp
  have nle: "\<not> ?count \<le> capacity vec"
    using full uc by (simp add: word_le_nat_alt)
  have cells: "cells_of_bytes (?count * sizeof_T) = 2 * ?s + 1"
    using cells_of_bytes_small [OF fit] uc by simp
  let ?h1 = "(release h (contents vec))(a \<mapsto> resize_block (2 * ?s + 1) cs)"
  let ?v1 = "vec\<lparr>contents := Ptr a, capacity := ?count\<rparr>"
  have re: "realloc (Grant a) h (contents vec) (?count * sizeof_T) = Inr (?h1, Ptr a)"
    using realloc_granted [OF valid usable, of "?count * sizeof_T"] unfolding cells .
  have res: "vector_reserve (Grant a) h vec ?count = Inr (OK, ?h1, ?v1)"
    using nle re by (rule reserve_granted)
  have st: "store ?h1 (Ptr a) ?s x = Inr (?h1(a \<mapsto> (resize_block (2 * ?s + 1) cs)[?s := Some x]))"
    by (rule store_ok) simp_all
  show ?thesis
    unfolding vector_push_back_def using full res st by simp
qed

lemma insert_spare:
  assumes wf: "wf_vector h vec" and idx: "index < size_v vec" and spare: "size_v vec < capacity vec"
  shows "\<exists>h'. vector_insert ch h vec index x = Inr (OK, h', vec\<lparr>size_v := size_v vec + 1\<rparr>)"
proof -
  let ?s = "unat (size_v vec)" and ?i = "unat index"
  from spare have ne: "size_v vec \<noteq> capacity vec" and c0: "capacity vec \<noteq> 0" by auto
  from wf_live [OF wf c0] obtain a cs where
    c: "contents vec = Ptr a" and b: "h a = Some cs" and len: "length cs = unat (capacity vec)"
    by auto
  from spare len have sl: "?s < length cs" by (simp add: word_less_nat_alt)
  from idx have i: "?i < ?s" by (simp add: word_less_nat_alt)
  from wf_size_bound [OF wf] have s: "?s < 2 ^ 62" by simp
  have k: "cells_of_bytes ((size_v vec - index) * sizeof_T) = ?s - ?i"
    using idx s by (simp only: cells_of_bytes_diff [OF less_imp_le])
  let ?cs2 = "take (?i + 1) cs @ take (?s - ?i) (drop ?i cs) @ drop (?i + 1 + (?s - ?i)) cs"
  have src: "?i + cells_of_bytes ((size_v vec - index) * sizeof_T) \<le> length cs"
    unfolding k using i sl by simp
  have dst: "?i + 1 + cells_of_bytes ((size_v vec - index) * sizeof_T) \<le> length cs"
    unfolding k using i sl by simp
  from memmove_ok [of h a cs ?i "(size_v vec - index) * sizeof_T" "?i + 1", OF b src dst]
  have mv: "memmove h (contents vec) (?i + 1) ?i ((size_v vec - index) * sizeof_T) =
      Inr (h(a \<mapsto> ?cs2))"
    unfolding k c .
  have st: "store (h(a \<mapsto> ?cs2)) (contents vec) ?i x =
      Inr ((h(a \<mapsto> ?cs2))(a \<mapsto> ?cs2[?i := Some x]))"
    unfolding c using i sl by (intro store_ok) simp_all
  show ?thesis
    unfolding vector_insert_def using idx ne mv st by (simp add: not_le [symmetric])
qed

subsection \<open>Runs of pushes return\<close>

lemma push_back_returns:
  assumes wf: "wf_vector h vec"
    and valid: "pointee h (contents vec) = Inr cs"
    and usable: "contents vec = Ptr a \<or> h a = None"
    and small: "unat (size_v vec) < 2 ^ 61"
  shows "\<exists>h' vec' cs'. vector_push_back (Grant a) h vec x = Inr (OK, h', vec') \<and>
           pointee h' (contents vec') = Inr cs' \<and> (contents vec' = Ptr a \<or> h' a = None)"
proof (cases "size_v vec = capacity vec")
  case True
  from push_back_granted [OF wf True small valid usable, of x] obtain h' where
    pb: "vector_push_back (Grant a) h vec x =
           Inr (OK, h', vec\<lparr>contents := Ptr a, capacity := SCALING_FACTOR * size_v vec + 1,
                             size_v := size_v vec + 1\<rparr>)"
    by blast
  let ?v' = "vec\<lparr>contents := Ptr a, capacity := SCALING_FACTOR * size_v vec + 1,
                  size_v := size_v vec + 1\<rparr>"
  from push_back_ok [OF wf pb] have "wf_vector h' ?v'" by simp
  moreover have "capacity ?v' \<noteq> 0"
    using unat_double_plus1 [of "size_v vec"] small by (auto simp: unat_eq_0 [symmetric])
  ultimately obtain b cs' where "contents ?v' = Ptr b" "h' b = Some cs'"
    using wf_live by blast
  then have "pointee h' (contents ?v') = Inr cs'" by simp
  with pb show ?thesis by auto
next
  case False
  with wf have spare: "size_v vec < capacity vec" by (auto simp: wf_vector_def)
  then have c0: "capacity vec \<noteq> 0" by auto
  from wf_live [OF wf c0] obtain b bs where
    c: "contents vec = Ptr b" and b: "h b = Some bs" and len: "length bs = unat (capacity vec)"
    by auto
  from spare len have lt: "unat (size_v vec) < length bs" by (simp add: word_less_nat_alt)
  let ?h' = "h(b \<mapsto> bs[unat (size_v vec) := Some x])"
  from store_ok [of h b bs "unat (size_v vec)" x, OF b lt] False c
  have pb: "vector_push_back (Grant a) h vec x = Inr (OK, ?h', vec\<lparr>size_v := size_v vec + 1\<rparr>)"
    by (simp add: vector_push_back_def)
  moreover have "pointee ?h' (contents (vec\<lparr>size_v := size_v vec + 1\<rparr>)) =
      Inr (bs[unat (size_v vec) := Some x])"
    using c by simp
  moreover have "contents (vec\<lparr>size_v := size_v vec + 1\<rparr>) = Ptr a \<or> ?h' a = None"
    using usable c b by auto
  ultimately show ?thesis by blast
qed

lemma push_all_returns:
  assumes "wf_vector h vec" "pointee h (contents vec) = Inr cs" "contents vec = Ptr a \<or> h a = None"
    "unat (size_v vec) + length xs \<le> 2 ^ 61"
  shows "\<exists>h' vec'. push_all (map (Pair (Grant a)) xs) h vec = Inr (OK, h', vec')"
  using assms
proof (induction xs arbitrary: h vec cs)
  case Nil
  then show ?case by simp
next
  case (Cons x xs)
  from Cons.prems(4) have small: "unat (size_v vec) < 2 ^ 61" by simp
  from push_back_returns [OF Cons.prems(1-3) small, of x] obtain h1 vec1 cs1 where
    pb: "vector_push_back (Grant a) h vec x = Inr (OK, h1, vec1)" and
    v1: "pointee h1 (contents vec1) = Inr cs1" and u1: "contents vec1 = Ptr a \<or> h1 a = None"
    by blast
  have nz: "OK \<noteq> BAD_ALLOC" by simp
  from push_back_ok [OF Cons.prems(1) pb nz] have wf1: "wf_vector h1 vec1"
    and s1: "unat (size_v vec1) = unat (size_v vec) + 1" by blast+
  from s1 Cons.prems(4) have "unat (size_v vec1) + length xs \<le> 2 ^ 61" by simp
  from Cons.IH [OF wf1 v1 u1 this] pb show ?case by simp
qed

text \<open>
  Claim C3. On a well formed vector a push returns \<open>OK\<close> whenever there is spare
  capacity, and on a full vector whenever the allocator grants the request (the
  \<open>contents\<close> pointer being null or live, and \<open>2 * size + 1\<close> elements fitting into
  \<open>size_t\<close> bytes); so does every run of pushes under those conditions. A run of pushes
  that all return \<open>OK\<close> adds the number of calls to the size and appends the pushed
  values in order: started on an empty vector the size is the number of pushes and index
  \<open>i\<close> holds the \<open>i\<close>-th value. After any call that returns, \<open>size \<le> capacity\<close>; the
  capacity changes only if \<open>size = capacity\<close> held before, and then to \<open>2 * size + 1\<close>,
  without wrap-around.
\<close>

theorem push_back_sequences:
  assumes "wf_vector h vec"
  shows "(push_all ps h vec = Inr (OK, h', vec') \<longrightarrow>
            unat (size_v vec') = unat (size_v vec) + length ps \<and>
            elements h' vec' = elements h vec @ map (\<lambda>p. Some (snd p)) ps \<and>
            (\<forall>i < length ps. elements h' vec' ! (unat (size_v vec) + i) = Some (snd (ps ! i))) \<and>
            (size_v vec = 0 \<longrightarrow>
               unat (size_v vec') = length ps \<and>
               (\<forall>i < unat (size_v vec'). elements h' vec' ! i = Some (snd (ps ! i))))) \<and>
         (vector_push_back ch h vec x = Inr (r, h1, vec1) \<longrightarrow>
            size_v vec1 \<le> capacity vec1 \<and>
            (capacity vec1 \<noteq> capacity vec \<longrightarrow>
               size_v vec = capacity vec \<and> capacity vec1 = SCALING_FACTOR * size_v vec + 1 \<and>
               unat (capacity vec1) = 2 * unat (size_v vec) + 1)) \<and>
         (size_v vec < capacity vec \<longrightarrow>
            (\<exists>h2. vector_push_back ch h vec x = Inr (OK, h2, vec\<lparr>size_v := size_v vec + 1\<rparr>))) \<and>
         (size_v vec = capacity vec \<and> unat (size_v vec) < 2 ^ 61 \<and>
          pointee h (contents vec) = Inr cs \<and> (contents vec = Ptr a \<or> h a = None) \<longrightarrow>
            (\<exists>h2. vector_push_back (Grant a) h vec x =
               Inr (OK, h2, vec\<lparr>contents := Ptr a, capacity := SCALING_FACTOR * size_v vec + 1,
                                size_v := size_v vec + 1\<rparr>))) \<and>
         (unat (size_v vec) + length xs \<le> 2 ^ 61 \<and>
          pointee h (contents vec) = Inr cs \<and> (contents vec = Ptr a \<or> h a = None) \<longrightarrow>
            (\<exists>h2 vec2. push_all (map (Pair (Grant a)) xs) h vec = Inr (OK, h2, vec2) \<and>
               unat (size_v vec2) = unat (size_v vec) + length xs \<and>
               elements h2 vec2 = elements h vec @ map Some xs))"
proof -
  have seq: "unat (size_v vec') = unat (size_v vec) + length ps \<and>
      elements h' vec' = elements h vec @ map (\<lambda>p. Some (snd p)) ps \<and>
      (\<forall>i < length ps. elements h' vec' ! (unat (size_v vec) + i) = Some (snd (ps ! i))) \<and>
      (size_v vec = 0 \<longrightarrow>
         unat (size_v vec') = length ps \<and>
         (\<forall>i < unat (size_v vec'). elements h' vec' ! i = Some (snd (ps ! i))))"
    if run: "push_all ps h vec = Inr (OK, h', vec')"
  proof -
    from push_all_ok [OF assms run] have
      sz: "unat (size_v vec') = unat (size_v vec) + length ps" and
      el: "elements h' vec' = elements h vec @ map (\<lambda>p. Some (snd p)) ps"
      by simp_all
    have nth: "\<forall>i < length ps. elements h' vec' ! (unat (size_v vec) + i) = Some (snd (ps ! i))"
      using el elements_length [OF assms] by (simp add: nth_append)
    have "unat (size_v vec') = length ps \<and>
        (\<forall>i < unat (size_v vec'). elements h' vec' ! i = Some (snd (ps ! i)))"
      if "size_v vec = 0"
      using that sz nth by simp
    with sz el nth show ?thesis by blast
  qed
  have one: "size_v vec1 \<le> capacity vec1 \<and>
      (capacity vec1 \<noteq> capacity vec \<longrightarrow>
         size_v vec = capacity vec \<and> capacity vec1 = SCALING_FACTOR * size_v vec + 1 \<and>
         unat (capacity vec1) = 2 * unat (size_v vec) + 1)"
    if pb: "vector_push_back ch h vec x = Inr (r, h1, vec1)"
  proof (cases "r = 0")
    case True
    from push_back_refused [OF assms pb True] assms show ?thesis by (simp add: wf_vector_def)
  next
    case False
    from push_back_ok [OF assms pb False] have "wf_vector h1 vec1" by blast
    then have "size_v vec1 \<le> capacity vec1" by (simp add: wf_vector_def)
    with push_back_ok [OF assms pb False] show ?thesis by blast
  qed
  have spare: "\<exists>h2. vector_push_back ch h vec x = Inr (OK, h2, vec\<lparr>size_v := size_v vec + 1\<rparr>)"
    if "size_v vec < capacity vec"
    using assms that by (rule push_back_spare)
  have full: "\<exists>h2. vector_push_back (Grant a) h vec x =
               Inr (OK, h2, vec\<lparr>contents := Ptr a, capacity := SCALING_FACTOR * size_v vec + 1,
                                size_v := size_v vec + 1\<rparr>)"
    if "size_v vec = capacity vec \<and> unat (size_v vec) < 2 ^ 61 \<and>
          pointee h (contents vec) = Inr cs \<and> (contents vec = Ptr a \<or> h a = None)"
    using that push_back_granted [OF assms, of cs a x] by blast
  have runs: "\<exists>h2 vec2. push_all (map (Pair (Grant a)) xs) h vec = Inr (OK, h2, vec2) \<and>
               unat (size_v vec2) = unat (size_v vec) + length xs \<and>
               elements h2 vec2 = elements h vec @ map Some xs"
    if c: "unat (size_v vec) + length xs \<le> 2 ^ 61 \<and>
          pointee h (contents vec) = Inr cs \<and> (contents vec = Ptr a \<or> h a = None)"
  proof -
    from c push_all_returns [OF assms, of cs a xs] obtain h2 vec2 where
      run: "push_all (map (Pair (Grant a)) xs) h vec = Inr (OK, h2, vec2)" by blast
    from push_all_ok [OF assms run] have
      "unat (size_v vec2) = unat (size_v vec) + length xs"
      "elements h2 vec2 = elements h vec @ map Some xs"
      by (simp_all add: comp_def)
    with run show ?thesis by blast
  qed
  show ?thesis
    apply (intro conjI)
    subgoal by (rule impI, rule seq, assumption)
    subgoal by (rule impI, rule one, assumption)
    subgoal by (rule impI, rule spare, assumption)
    subgoal by (rule impI, rule full, assumption)
    subgoal by (rule impI, rule runs, assumption)
    done
qed

theorem push_back_sequences_witness:
  "wf_vector heap0 vec0 \<and> size_v vec0 = 0 \<and>
   push_all [(Grant 1, 10), (Grant 1, 20), (Grant 1, 30)] heap0 vec0 = Inr (OK, heap_three, vec_three) \<and>
   unat (size_v vec_three) = 3 \<and> elements heap_three vec_three = [Some 10, Some 20, Some 30] \<and>
   elements heap_three vec_three ! 2 = Some 30 \<and>
   size_v vec0 = capacity vec0 \<and> unat (size_v vec0) < 2 ^ 61 \<and>
   pointee heap0 (contents vec0) = Inr [] \<and> heap0 1 = None \<and>
   unat (size_v vec0) + length [10 :: T, 20, 30] \<le> 2 ^ 61 \<and>
   push_all (map (Pair (Grant 1)) [10, 20, 30]) heap0 vec0 = Inr (OK, heap_three, vec_three) \<and>
   vector_push_back (Grant 1) heap0 vec0 10 = Inr (OK, heap_one, vec_one) \<and>
   size_v vec_one \<le> capacity vec_one \<and> capacity vec_one \<noteq> capacity vec0 \<and>
   capacity vec_one = SCALING_FACTOR * size_v vec0 + 1 \<and>
   wf_vector heap8 vec8 \<and> size_v vec8 < capacity vec8 \<and>
   vector_push_back Refuse heap8 vec8 10 = Inr (OK, heap_pushed, vec8\<lparr>size_v := 1\<rparr>) \<and>
   elements heap_pushed (vec8\<lparr>size_v := 1\<rparr>) = [Some 10]"
proof -
  have wf: "wf_vector heap0 vec0"
    by (simp add: wf_vector_def buffer_def vec0_def)
  have wf8: "wf_vector heap8 vec8"
    by (simp add: wf_vector_def buffer_def vec8_def heap8_def)
  have spare8: "size_v vec8 < capacity vec8"
    by (simp add: vec8_def)
  have run: "push_all [(Grant 1, 10), (Grant 1, 20), (Grant 1, 30)] heap0 vec0 = Inr (OK, heap_three, vec_three)"
    by (simp add: vector_push_back_def vector_reserve_def realloc_def store_def with_block_def
        heap0_def vec0_def heap_three_def vec_three_def cells_of_bytes_def resize_block_def
        word_le_nat_alt replicate_numeral)
  have one: "vector_push_back (Grant 1) heap0 vec0 10 = Inr (OK, heap_one, vec_one)"
    by (simp add: vector_push_back_def vector_reserve_def realloc_def store_def with_block_def
        heap0_def vec0_def heap_one_def vec_one_def cells_of_bytes_def resize_block_def)
  have eight: "vector_push_back Refuse heap8 vec8 10 = Inr (OK, heap_pushed, vec8\<lparr>size_v := 1\<rparr>)"
    by (simp add: vector_push_back_def store_def with_block_def heap0_def vec8_def heap8_def
        heap_pushed_def replicate_numeral)
  have el0: "elements heap0 vec0 = []" "size_v vec0 = 0" "capacity vec0 = 0" "capacity vec_one = 1"
    "pointee heap0 (contents vec0) = Inr []" "heap0 1 = None"
    "elements heap_pushed (vec8\<lparr>size_v := 1\<rparr>) = [Some 10]"
    by (simp_all add: elements_def buffer_def vec0_def heap0_def vec_one_def heap_pushed_def vec8_def)
  note T0 = push_back_sequences [OF wf, of "[(Grant 1, 10), (Grant 1, 20), (Grant 1, 30)]"
      heap_three vec_three "Grant 1" 10 OK heap_one vec_one "[]" 1 "[10, 20, 30]"]
  from T0 [THEN conjunct1, rule_format, OF run]
  have a: "unat (size_v vec_three) = unat (size_v vec0) + length [(Grant 1, 10 :: T), (Grant 1, 20), (Grant 1, 30)]"
    by (rule conjunct1)
  from T0 [THEN conjunct2, THEN conjunct1, rule_format, OF one]
  have c: "size_v vec_one \<le> capacity vec_one"
    by (rule conjunct1)
  from push_back_sequences [OF wf8, of "[]" heap8 vec8 Refuse 10 OK heap_pushed
      "vec8\<lparr>size_v := 1\<rparr>", THEN conjunct2, THEN conjunct1, rule_format, OF eight]
  have d: "size_v (vec8\<lparr>size_v := 1\<rparr>) \<le> capacity (vec8\<lparr>size_v := 1\<rparr>)"
    by (rule conjunct1)
  have hyp4: "size_v vec0 = capacity vec0 \<and> unat (size_v vec0) < 2 ^ 61 \<and>
      pointee heap0 (contents vec0) = Inr [] \<and> (contents vec0 = Ptr 1 \<or> heap0 1 = None)"
    using el0 by simp
  have hyp5: "unat (size_v vec0) + length [10 :: T, 20, 30] \<le> 2 ^ 61 \<and>
      pointee heap0 (contents vec0) = Inr [] \<and> (contents vec0 = Ptr 1 \<or> heap0 1 = None)"
    using el0 by simp
  note p3 = push_back_sequences [OF wf8, of "[]" heap8 vec8 Refuse 10 OK heap_pushed
      "vec8\<lparr>size_v := 1\<rparr>", THEN conjunct2, THEN conjunct2, THEN conjunct1, rule_format,
      OF spare8]
  note p4 = T0 [THEN conjunct2, THEN conjunct2, THEN conjunct2, THEN conjunct1, rule_format,
      OF hyp4]
  note p5 = T0 [THEN conjunct2, THEN conjunct2, THEN conjunct2, THEN conjunct2, rule_format,
      OF hyp5]
  have rest: "unat (size_v vec_three) = 3" "elements heap_three vec_three = [Some 10, Some 20, Some 30]"
    "capacity vec_one \<noteq> capacity vec0" "unat (size_v vec0) < 2 ^ 61"
    by (simp_all add: vec_three_def heap_three_def elements_def buffer_def vec_one_def vec0_def)
  from p3 p4 p5 a c d wf wf8 spare8 el0 rest run one eight show ?thesis
    by simp
qed

subsection \<open>Inserts return\<close>

lemma insert_granted:
  assumes wf: "wf_vector h vec" and idx: "index < size_v vec"
    and full: "size_v vec = capacity vec" and small: "unat (size_v vec) < 2 ^ 61"
    and usable: "contents vec = Ptr a \<or> h a = None"
  shows "\<exists>h'. vector_insert (Grant a) h vec index x =
           Inr (OK, h', vec\<lparr>contents := Ptr a, capacity := SCALING_FACTOR * size_v vec + 1,
                             size_v := size_v vec + 1\<rparr>)"
proof -
  let ?s = "unat (size_v vec)" and ?i = "unat index"
  let ?count = "SCALING_FACTOR * size_v vec + 1"
  from idx have i: "?i < ?s" by (simp add: word_less_nat_alt)
  from idx full have c0: "capacity vec \<noteq> 0" by auto
  from wf_live [OF wf c0] obtain b cs where
    c: "contents vec = Ptr b" and b: "h b = Some cs" and len: "length cs = unat (capacity vec)"
    by auto
  then have valid: "pointee h (contents vec) = Inr cs" by simp
  from small have s: "?s < 2 ^ 62" by simp
  then have uc: "unat ?count = 2 * ?s + 1" by (rule unat_double_plus1)
  with small have fit: "unat ?count < 2 ^ 62" by simp
  have nle: "\<not> ?count \<le> capacity vec"
    using full uc by (simp add: word_le_nat_alt)
  have cells: "cells_of_bytes (?count * sizeof_T) = 2 * ?s + 1"
    using cells_of_bytes_small [OF fit] uc by simp
  let ?cs1 = "resize_block (2 * ?s + 1) cs"
  let ?h1 = "(release h (contents vec))(a \<mapsto> ?cs1)"
  let ?v1 = "vec\<lparr>contents := Ptr a, capacity := ?count\<rparr>"
  have re: "realloc (Grant a) h (contents vec) (?count * sizeof_T) = Inr (?h1, Ptr a)"
    using realloc_granted [OF valid usable, of "?count * sizeof_T"] unfolding cells .
  have res: "vector_reserve (Grant a) h vec ?count = Inr (OK, ?h1, ?v1)"
    using nle re by (rule reserve_granted)
  have b1: "?h1 a = Some ?cs1" by simp
  have k: "cells_of_bytes ((size_v vec - index) * sizeof_T) = ?s - ?i"
    using idx s by (simp only: cells_of_bytes_diff [OF less_imp_le])
  let ?cs2 = "take (?i + 1) ?cs1 @ take (?s - ?i) (drop ?i ?cs1) @ drop (?i + 1 + (?s - ?i)) ?cs1"
  have src: "?i + cells_of_bytes ((size_v vec - index) * sizeof_T) \<le> length ?cs1"
    unfolding k using i by simp
  have dst: "?i + 1 + cells_of_bytes ((size_v vec - index) * sizeof_T) \<le> length ?cs1"
    unfolding k using i by simp
  from memmove_ok [of ?h1 a ?cs1 ?i "(size_v vec - index) * sizeof_T" "?i + 1", OF b1 src dst]
  have mv: "memmove ?h1 (Ptr a) (?i + 1) ?i ((size_v vec - index) * sizeof_T) =
      Inr (?h1(a \<mapsto> ?cs2))"
    unfolding k .
  have st: "store (?h1(a \<mapsto> ?cs2)) (Ptr a) ?i x =
      Inr ((?h1(a \<mapsto> ?cs2))(a \<mapsto> ?cs2[?i := Some x]))"
    using i by (intro store_ok) simp_all
  show ?thesis
    unfolding vector_insert_def using idx full res mv st by (simp add: not_le [symmetric])
qed

text \<open>
  Claim C4. On a well formed vector, an insert at an index below the size returns \<open>OK\<close>
  whenever there is spare capacity, and on a full vector whenever the allocator grants
  the request. Every insert that returns \<open>OK\<close> adds 1 to the size, puts the value at
  the index, moves the elements from the index on one place to the right in their order,
  and leaves the elements before the index as they were.
\<close>

theorem insert_shifts:
  assumes wf: "wf_vector h vec" and idx: "index < size_v vec"
  shows "(vector_insert ch h vec index x = Inr (OK, h', vec') \<longrightarrow>
            size_v vec' = size_v vec + 1 \<and> unat (size_v vec') = unat (size_v vec) + 1 \<and>
            elements h' vec' =
              take (unat index) (elements h vec) @ [Some x] @ drop (unat index) (elements h vec) \<and>
            elements h' vec' ! unat index = Some x \<and>
            (\<forall>i. unat index \<le> i \<and> i < unat (size_v vec) \<longrightarrow>
                 elements h' vec' ! (i + 1) = elements h vec ! i) \<and>
            (\<forall>i < unat index. elements h' vec' ! i = elements h vec ! i) \<and>
            wf_vector h' vec') \<and>
         (size_v vec < capacity vec \<longrightarrow>
            (\<exists>h2. vector_insert ch h vec index x = Inr (OK, h2, vec\<lparr>size_v := size_v vec + 1\<rparr>))) \<and>
         (size_v vec = capacity vec \<and> unat (size_v vec) < 2 ^ 61 \<and>
          (contents vec = Ptr a \<or> h a = None) \<longrightarrow>
            (\<exists>h2. vector_insert (Grant a) h vec index x =
               Inr (OK, h2, vec\<lparr>contents := Ptr a, capacity := SCALING_FACTOR * size_v vec + 1,
                                size_v := size_v vec + 1\<rparr>)))"
proof (intro conjI)
  show "vector_insert ch h vec index x = Inr (OK, h', vec') \<longrightarrow>
            size_v vec' = size_v vec + 1 \<and> unat (size_v vec') = unat (size_v vec) + 1 \<and>
            elements h' vec' =
              take (unat index) (elements h vec) @ [Some x] @ drop (unat index) (elements h vec) \<and>
            elements h' vec' ! unat index = Some x \<and>
            (\<forall>i. unat index \<le> i \<and> i < unat (size_v vec) \<longrightarrow>
                 elements h' vec' ! (i + 1) = elements h vec ! i) \<and>
            (\<forall>i < unat index. elements h' vec' ! i = elements h vec ! i) \<and>
            wf_vector h' vec'"
    by (rule impI, rule insert_ok [OF wf idx])
  show "size_v vec < capacity vec \<longrightarrow>
            (\<exists>h2. vector_insert ch h vec index x = Inr (OK, h2, vec\<lparr>size_v := size_v vec + 1\<rparr>))"
    by (rule impI, rule insert_spare [OF wf idx])
  show "size_v vec = capacity vec \<and> unat (size_v vec) < 2 ^ 61 \<and>
          (contents vec = Ptr a \<or> h a = None) \<longrightarrow>
            (\<exists>h2. vector_insert (Grant a) h vec index x =
               Inr (OK, h2, vec\<lparr>contents := Ptr a, capacity := SCALING_FACTOR * size_v vec + 1,
                                size_v := size_v vec + 1\<rparr>))"
    using insert_granted [OF wf idx, of a x] by blast
qed

theorem insert_shifts_witness:
  "wf_vector heap_three vec_three \<and> (1 :: size_t) < size_v vec_three \<and>
   size_v vec_three = capacity vec_three \<and> unat (size_v vec_three) < 2 ^ 61 \<and>
   contents vec_three = Ptr 1 \<and>
   vector_insert (Grant 1) heap_three vec_three 1 99 = Inr (OK, heap_ins, vec_ins) \<and>
   elements heap_three vec_three = [Some 10, Some 20, Some 30] \<and>
   elements heap_ins vec_ins = [Some 10, Some 99, Some 20, Some 30] \<and>
   size_v vec_ins = size_v vec_three + 1 \<and> wf_vector heap_ins vec_ins \<and>
   wf_vector heap_spare vec_spare \<and> (0 :: size_t) < size_v vec_spare \<and>
   size_v vec_spare < capacity vec_spare \<and>
   vector_insert Refuse heap_spare vec_spare 0 99 =
     Inr (OK, heap_spare_ins, vec_spare\<lparr>size_v := 4\<rparr>) \<and>
   elements heap_spare_ins (vec_spare\<lparr>size_v := 4\<rparr>) = [Some 99, Some 10, Some 20, Some 30]"
proof -
  have wf: "wf_vector heap_three vec_three"
    by (simp add: wf_vector_def buffer_def vec_three_def heap_three_def)
  have idx: "(1 :: size_t) < size_v vec_three"
    by (simp add: vec_three_def word_less_nat_alt)
  have ins: "vector_insert (Grant 1) heap_three vec_three 1 99 = Inr (OK, heap_ins, vec_ins)"
    by (simp add: vector_insert_def vector_reserve_def realloc_def memmove_def store_def
        with_block_def heap0_def heap_three_def vec_three_def heap_ins_def vec_ins_def
        cells_of_bytes_def resize_block_def word_le_nat_alt word_less_nat_alt replicate_numeral)
  have el: "elements heap_three vec_three = [Some 10, Some 20, Some 30]"
    by (simp add: elements_def buffer_def vec_three_def heap_three_def)
  have hyp3: "size_v vec_three = capacity vec_three \<and> unat (size_v vec_three) < 2 ^ 61 \<and>
      (contents vec_three = Ptr 1 \<or> heap_three 1 = None)"
    by (simp add: vec_three_def)
  have wfs: "wf_vector heap_spare vec_spare"
    by (simp add: wf_vector_def buffer_def vec_spare_def heap_spare_def word_le_nat_alt)
  have idxs: "(0 :: size_t) < size_v vec_spare" and spare: "size_v vec_spare < capacity vec_spare"
    by (simp_all add: vec_spare_def word_less_nat_alt)
  have inss: "vector_insert Refuse heap_spare vec_spare 0 99 =
     Inr (OK, heap_spare_ins, vec_spare\<lparr>size_v := 4\<rparr>)"
    by (simp add: vector_insert_def memmove_def store_def with_block_def heap0_def heap_spare_def
        vec_spare_def heap_spare_ins_def cells_of_bytes_def word_le_nat_alt word_less_nat_alt)
  note T = insert_shifts [OF wf idx, of "Grant 1" 99 heap_ins vec_ins 1]
  note S = insert_shifts [OF wfs idxs, of Refuse 99 heap_spare_ins "vec_spare\<lparr>size_v := 4\<rparr>" 1]
  note t1 = T [THEN conjunct1, rule_format, OF ins]
  note t3 = T [THEN conjunct2, THEN conjunct2, rule_format, OF hyp3]
  note s1 = S [THEN conjunct1, rule_format, OF inss]
  note s2 = S [THEN conjunct2, THEN conjunct1, rule_format, OF spare]
  have e1: "elements heap_ins vec_ins = [Some 10, Some 99, Some 20, Some 30]"
    using t1 [THEN conjunct2, THEN conjunct2, THEN conjunct1] el by simp
  have e2: "size_v vec_ins = size_v vec_three + 1" "wf_vector heap_ins vec_ins"
    using t1 by blast+
  have e3: "elements heap_spare_ins (vec_spare\<lparr>size_v := 4\<rparr>) = [Some 99, Some 10, Some 20, Some 30]"
    by (simp add: elements_def buffer_def heap_spare_ins_def vec_spare_def)
  from t3 s1 s2 e1 e2 e3 wf idx ins el hyp3 wfs idxs spare inss show ?thesis
    by (simp add: vec_three_def)
qed

subsection \<open>\<open>vector_assign\<close> past the stray write\<close>

lemma memset_machine_in_bounds:
  "memset h p off c n = Inr h' \<Longrightarrow> memset_machine h p off c n = Inr h'"
  by (auto simp: memset_def memset_machine_def with_block_def Let_def min_def
      split: pointer.splits option.splits if_splits)

lemma memset_machine_Inr:
  assumes "memset_machine h p off c n = Inr h'"
  shows "\<exists>b. p = Ptr b \<and> (h b = None \<and> h' = h \<or>
           (\<exists>cs cs'. h b = Some cs \<and> h' = h(b \<mapsto> cs') \<and> length cs' = length cs))"
  using assms
  by (auto simp: memset_machine_def Let_def min_def split: pointer.splits option.splits)








lemma resize_machine_extends:
  assumes "vector_resize ch h vec count = Inr res"
  shows "vector_resize_machine ch h vec count = Inr res"
  using assms unfolding vector_resize_def vector_resize_machine_def
  by (auto split: sum.splits prod.splits if_splits dest: memset_machine_in_bounds)

lemma assign_machine_extends:
  assumes "vector_assign ch h vec count v = Inr res"
  shows "vector_assign_machine ch h vec count v = Inr res"
proof -
  from assms obtain r1 h1 vec1 where rs: "vector_resize ch h vec count = Inr (r1, h1, vec1)"
    unfolding vector_assign_def by (auto split: sum.splits prod.splits)
  from resize_machine_extends [OF rs] rs assms show ?thesis
    by (simp add: vector_assign_def vector_assign_machine_def)
qed



subsection \<open>\<open>vector_reserve\<close> within and beyond the range of \<open>size_t\<close>\<close>

lemma reserve_in_range:
  assumes wf: "wf_vector h vec" and gt: "capacity vec < count" and fit: "unat count < 2 ^ 62"
    and res: "vector_reserve ch h vec count = Inr (r, h', vec')"
  shows "(r = OK \<and> capacity vec' = count \<and> size_v vec' = size_v vec \<and>
          elements h' vec' = elements h vec \<and> wf_vector h' vec') \<or>
         (r = BAD_ALLOC \<and> h' = h \<and> vec' = vec)"
proof -
  from gt have "\<not> count \<le> capacity vec" by auto
  with reserve_wf [OF wf fit res] show ?thesis by auto
qed

lemma reserve_refuse:
  assumes "capacity vec < count" "pointee h (contents vec) = Inr cs"
  shows "vector_reserve Refuse h vec count = Inr (BAD_ALLOC, h, vec)"
  using assms by (simp add: vector_reserve_def realloc_def not_le [symmetric])

lemma reserve_grant:
  assumes gt: "capacity vec < count" and valid: "pointee h (contents vec) = Inr cs"
    and usable: "contents vec = Ptr a \<or> h a = None"
  shows "vector_reserve (Grant a) h vec count =
         Inr (OK, (release h (contents vec))(a \<mapsto> resize_block (cells_of_bytes (count * sizeof_T)) cs),
              vec\<lparr>contents := Ptr a, capacity := count\<rparr>)"
proof -
  from gt have "\<not> count \<le> capacity vec" by auto
  then show ?thesis
    using realloc_granted [OF valid usable, of "count * sizeof_T"] by (rule reserve_granted)
qed

text \<open>
  Claim C8 at a failing input: a vector of 3 elements with capacity 3. With
  \<open>count = 2 ^ 62 + 1\<close> the product \<open>count * sizeof(T)\<close> wraps to 4 bytes: \<^verbatim>\<open>realloc\<close>
  shrinks the block to one cell, \<open>OK\<close> is returned and the capacity is set to \<open>count\<close>,
  but two elements are gone. With \<open>count = 2 ^ 62\<close> the request is for 0 bytes: an
  allocator that then frees the block and returns null makes \<open>vector_reserve\<close> return
  \<open>BAD_ALLOC\<close> with the buffer released.
\<close>

theorem reserve_overflow_loses_elements:
  "capacity vec_three < 4611686018427387905 \<and>
   vector_reserve (Grant 1) heap_three vec_three 4611686018427387905 = Inr (OK, heap_one, vec_huge) \<and>
   elements heap_three vec_three = [Some 10, Some 20, Some 30] \<and>
   elements heap_one vec_huge = [Some 10] \<and>
   buffer heap_one vec_huge = Some [Some 10] \<and>
   capacity vec_huge = 4611686018427387905 \<and>
   capacity vec_three < 4611686018427387904 \<and>
   vector_reserve Release heap_three vec_three 4611686018427387904 = Inr (BAD_ALLOC, heap0, vec_three) \<and>
   buffer heap_three vec_three = Some [Some 10, Some 20, Some 30] \<and>
   buffer heap0 vec_three = None"
  by (simp add: vector_reserve_def realloc_def heap0_def heap_three_def vec_three_def heap_one_def
      vec_huge_def cells_of_bytes_def resize_block_def elements_def buffer_def
      word_le_nat_alt word_less_nat_alt)

end
